theory Spec2Isabelle
  imports Complex_Main "HOL-Library.Sublist"
begin

section \<open>Entities of the engine\<close>

text \<open>
  The symbols imported from \<^verbatim>\<open>MilkCheck.Engine.BaseEntity\<close> by \<^verbatim>\<open>Action.py\<close>.
\<close>

datatype status = NO_STATUS | WAITING_STATUS | DONE | TIMED_OUT | TOO_MANY_ERRORS | ERROR

text \<open>
  Exceptions are values. \<open>AssertionError\<close> carries the message of the failed
  \<^verbatim>\<open>assert\<close>, \<open>UndefinedVariableError\<close> the message built by its constructor,
  \<open>AttributeError\<close> the attribute read on \<^verbatim>\<open>None\<close>. \<open>RuntimeError\<close> is what Python
  raises when the interpreter's recursion limit is reached. \<open>ReError\<close> is the
  exception \<^verbatim>\<open>error\<close> of the module \<^verbatim>\<open>re\<close>, \<open>IndexError\<close> the one that \<^verbatim>\<open>re\<close>
  raises for the name of a group that the pattern does not have.
\<close>

datatype error =
    AssertionError string
  | AttributeError string
  | RuntimeError string
  | UndefinedVariableError string
  | TypeError string
  | ReError string
  | IndexError string

text \<open>
  A call either returns or raises; in both cases the mutations made so far stay, so
  both carry the state.
\<close>

datatype 's outcome = Return 's | Raise error 's

fun final :: "'s outcome \<Rightarrow> 's" where
  "final (Return s) = s"
| "final (Raise e s) = s"

fun raised :: "'s outcome \<Rightarrow> error option" where
  "raised (Return s) = None"
| "raised (Raise e s) = Some e"

type_synonym aid = nat
type_synonym sid = nat

text \<open>
  The worker handle of the node executor, as far as \<^verbatim>\<open>Action.py\<close> reads it:
  \<^verbatim>\<open>iter_retcodes()\<close> yields pairs of a return code and the nodes that returned it,
  \<^verbatim>\<open>did_timeout()\<close> is the timeout flag.
\<close>

record Worker =
  iter_retcodes :: "(int \<times> string list) list"
  did_timeout :: bool

text \<open>
  The attributes an Action inherits from \<^verbatim>\<open>BaseEntity\<close> and reads in \<^verbatim>\<open>Action.py\<close>.
  \<open>parents\<close> and \<open>children\<close> hold the targets of the dependency records, in the
  iteration order of the dictionaries; targets are addresses in the store of actions.
\<close>

record BaseEntity =
  name :: string
  target :: "string option"
  status :: status
  parents :: "aid list"
  children :: "aid list"
  errors :: int
  fanout :: "int option"

text \<open>
  The attributes set by \<^verbatim>\<open>Action.__init__\<close>. \<open>retry\<close> is the private \<^verbatim>\<open>_retry\<close>
  (what the property \<^verbatim>\<open>retry\<close> reads), \<open>retry_backup\<close> is \<^verbatim>\<open>_retry_backup\<close>.
  Timestamps are readings of a clock.
\<close>

record Action = BaseEntity +
  timeout :: real
  delay :: real
  retry :: int
  retry_backup :: int
  command :: "string option"
  worker :: "Worker option"
  service :: "sid option"
  start_time :: "nat option"
  stop_time :: "nat option"

text \<open>
  \<^verbatim>\<open>Action.__init__\<close>: the first argument is the object as \<^verbatim>\<open>BaseEntity.__init__\<close>
  leaves it.
\<close>

definition Action_init :: "BaseEntity \<Rightarrow> string option \<Rightarrow> real \<Rightarrow> real \<Rightarrow> Action" where
  "Action_init base cmd tmo dly =
     BaseEntity.extend base (Action.fields tmo dly 0 (- 1) cmd None None None None)"

text \<open>
  Modelled from the spec: \<^verbatim>\<open>BaseEntity.reset\<close> is not in \<^verbatim>\<open>Action.py\<close>; the spec
  says that statuses are sticky until an explicit reset, so the reset of the base
  class puts the status back to \<open>NO_STATUS\<close>.
\<close>

definition BaseEntity_reset :: "'a BaseEntity_scheme \<Rightarrow> 'a BaseEntity_scheme" where
  "BaseEntity_reset e = e\<lparr>status := NO_STATUS\<rparr>"

definition reset :: "Action \<Rightarrow> Action" where
  "reset a =
     (let a1 = BaseEntity_reset a;
          a2 = a1\<lparr>start_time := None\<rparr>;
          a3 = a2\<lparr>stop_time := None\<rparr>;
          a4 = a3\<lparr>worker := None\<rparr>
      in a4\<lparr>retry := retry_backup a4\<rparr>)"

subsection \<open>Failure classification\<close>

definition has_timed_out :: "Action \<Rightarrow> bool" where
  "has_timed_out a = (case worker a of None \<Rightarrow> False | Some wk \<Rightarrow> did_timeout wk)"

text \<open>
  The loop of \<^verbatim>\<open>has_too_many_errors\<close>: the arguments are \<^verbatim>\<open>self.errors\<close>, the pairs
  still to visit, \<^verbatim>\<open>error_count\<close> and \<^verbatim>\<open>too_many_errors\<close>.
\<close>

fun retcodes_loop :: "int \<Rightarrow> (int \<times> string list) list \<Rightarrow> int \<Rightarrow> bool \<Rightarrow> bool" where
  "retcodes_loop errs [] error_count too_many_errors = too_many_errors"
| "retcodes_loop errs ((retcode, nds) # rest) error_count too_many_errors =
     (if retcode \<noteq> 0 then
        (let error_count' = error_count + int (length nds)
         in retcodes_loop errs rest error_count'
              (if error_count' > errs then True else too_many_errors))
      else retcodes_loop errs rest error_count too_many_errors)"

definition has_too_many_errors :: "Action \<Rightarrow> bool" where
  "has_too_many_errors a =
     (case worker a of
        None \<Rightarrow> False
      | Some wk \<Rightarrow> retcodes_loop (errors a) (iter_retcodes wk) 0 False)"

text \<open>
  The number of nodes in the groups of a non-zero return code: what the spec calls the
  cumulative count.
\<close>

definition failed_nodes :: "(int \<times> string list) list \<Rightarrow> int" where
  "failed_nodes groups =
     sum_list (map (\<lambda>(retcode, nds). if retcode \<noteq> 0 then int (length nds) else 0) groups)"

subsection \<open>The retry property\<close>

definition set_retry :: "Action \<Rightarrow> int \<Rightarrow> Action outcome" where
  "set_retry a r =
     (if \<not> delay a > 0 then
        Raise (AssertionError ''No way to specify retry without a delay'') a
      else if \<not> r \<ge> 0 then
        Raise (AssertionError ''No way to specify a negative retry'') a
      else
        (let a1 = a\<lparr>retry := r\<rparr>
         in if retry_backup a1 = - 1 then Return (a1\<lparr>retry_backup := r\<rparr>)
            else Return a1))"

definition get_retry :: "Action \<Rightarrow> int" where
  "get_retry a = retry a"

section \<open>The state of the engine\<close>

text \<open>
  The notifications of \<^verbatim>\<open>MilkCheck.Callback\<close> that \<^verbatim>\<open>Action.py\<close> sends.
\<close>

datatype event = EV_COMPLETE | EV_DELAYED | EV_STATUS_CHANGED | EV_STARTED | EV_TRIGGER_DEP

text \<open>
  The callback sink, the Action Manager and the Service are collaborators whose code is
  outside \<^verbatim>\<open>Action.py\<close>: a call to one of them is recorded, in order.
  \<open>Notify_action a ev\<close> is \<^verbatim>\<open>call_back_self().notify(a, ev)\<close>,
  \<open>Notify_pair a c ev\<close> is \<^verbatim>\<open>call_back_self().notify((a, c), ev)\<close>,
  \<open>Perform_action\<close>, \<open>Perform_delayed_action\<close> and \<open>Remove_task\<close> are the calls to
  \<^verbatim>\<open>action_manager_self()\<close>, and \<open>Service_update_status sv s\<close> is
  \<^verbatim>\<open>service.update_status(s)\<close> on the service \<open>sv\<close>.
\<close>

datatype effect =
    Notify_action aid event
  | Notify_pair aid aid event
  | Perform_action aid
  | Perform_delayed_action aid
  | Remove_task aid
  | Service_update_status sid status

text \<open>
  The objects are shared and mutated, so the state is a store of actions by address,
  the calls made so far (oldest first) and the reading of \<^verbatim>\<open>datetime.now()\<close>.
\<close>

record world =
  actions :: "aid \<Rightarrow> Action"
  calls :: "effect list"
  clock :: nat

definition emit :: "effect \<Rightarrow> world \<Rightarrow> world" where
  "emit e w = w\<lparr>calls := calls w @ [e]\<rparr>"

definition put :: "aid \<Rightarrow> Action \<Rightarrow> world \<Rightarrow> world" where
  "put a x w = w\<lparr>actions := (actions w)(a := x)\<rparr>"

subsection \<open>The dependency helpers of the base class\<close>

text \<open>
  Modelled from the spec: \<^verbatim>\<open>BaseEntity.eval_deps_status\<close> is not in
  \<^verbatim>\<open>Action.py\<close>. The spec: DONE iff all parents DONE; ERROR iff any parent is in a
  non-DONE terminal; WAITING iff any parent is WAITING_STATUS; otherwise NO_STATUS.
  The cases are tried in the order in which the spec gives them.
\<close>

definition eval_deps_status :: "world \<Rightarrow> aid \<Rightarrow> status" where
  "eval_deps_status w a =
     (let ss = map (\<lambda>p. status (actions w p)) (parents (actions w a))
      in if list_all (\<lambda>s. s = DONE) ss then DONE
         else if list_ex (\<lambda>s. s = TIMED_OUT \<or> s = TOO_MANY_ERRORS \<or> s = ERROR) ss then ERROR
         else if list_ex (\<lambda>s. s = WAITING_STATUS) ss then WAITING_STATUS
         else NO_STATUS)"

text \<open>
  Modelled from the spec: \<^verbatim>\<open>BaseEntity.search_deps\<close> is not in \<^verbatim>\<open>Action.py\<close>.
  The spec: for every parent in NO_STATUS, recurse; so the search returns the parents
  whose status is one of the given symbols, in the order of the dictionary.
\<close>

definition search_deps :: "world \<Rightarrow> aid \<Rightarrow> status list \<Rightarrow> aid list" where
  "search_deps w a symbols =
     filter (\<lambda>p. status (actions w p) \<in> set symbols) (parents (actions w a))"

text \<open>
  Modelled from the spec: \<^verbatim>\<open>BaseEntity.is_ready\<close> is not in \<^verbatim>\<open>Action.py\<close>.
  The spec: a successor is ready when its dependencies are all satisfied, that is when
  every parent is in a terminal state.
\<close>

definition is_ready :: "world \<Rightarrow> aid \<Rightarrow> bool" where
  "is_ready w a =
     list_all (\<lambda>p. status (actions w p) \<noteq> NO_STATUS \<and> status (actions w p) \<noteq> WAITING_STATUS)
       (parents (actions w a))"

subsection \<open>Scheduling\<close>

definition schedule :: "world \<Rightarrow> aid \<Rightarrow> bool \<Rightarrow> world" where
  "schedule w a allow_delay =
     (let w1 = (if start_time (actions w a) = None
                then put a ((actions w a)\<lparr>start_time := Some (clock w)\<rparr>) w
                else w)
      in if delay (actions w1 a) > 0 \<and> allow_delay then
           emit (Perform_delayed_action a) (emit (Notify_action a EV_DELAYED) w1)
         else
           emit (Perform_action a) (emit (Notify_action a EV_STARTED) w1))"

subsection \<open>Preparation and status updates\<close>

text \<open>
  \<^verbatim>\<open>prepare\<close> and \<^verbatim>\<open>update_status\<close> call each other through the graph of
  dependencies. The first argument is the number of frames left before the
  interpreter's recursion limit: each call of one of the two methods takes one, and a
  call with none left raises \<open>RuntimeError\<close>. \<open>prepare_loop\<close> is the \<^verbatim>\<open>for\<close> loop of
  \<^verbatim>\<open>prepare\<close> over the dependencies found, \<open>children_loop\<close> the \<^verbatim>\<open>for\<close> loop of
  \<^verbatim>\<open>update_status\<close> over \<^verbatim>\<open>self.children.values()\<close>; an exception leaves a loop at
  once.
\<close>

function (sequential) prepare :: "nat \<Rightarrow> world \<Rightarrow> aid \<Rightarrow> world outcome"
  and prepare_loop :: "nat \<Rightarrow> world \<Rightarrow> aid list \<Rightarrow> world outcome"
  and update_status :: "nat \<Rightarrow> world \<Rightarrow> aid \<Rightarrow> status \<Rightarrow> world outcome"
  and children_loop :: "nat \<Rightarrow> world \<Rightarrow> aid \<Rightarrow> aid list \<Rightarrow> world outcome"
where
  "prepare 0 w a = Raise (RuntimeError ''maximum recursion depth exceeded'') w"
| "prepare (Suc d) w a =
     (let deps_status = eval_deps_status w a
      in if status (actions w a) = NO_STATUS \<and> deps_status \<noteq> WAITING_STATUS then
           (if deps_status = ERROR \<or> parents (actions w a) = [] then
              (case update_status d w a WAITING_STATUS of
                 Return w1 \<Rightarrow> Return (schedule w1 a True)
               | Raise e w1 \<Rightarrow> Raise e w1)
            else if deps_status = DONE then
              update_status d w a DONE
            else
              prepare_loop d w (search_deps w a [NO_STATUS]))
         else Return w)"
| "prepare_loop d w [] = Return w"
| "prepare_loop d w (dep # deps) =
     (case prepare d w dep of
        Return w1 \<Rightarrow> prepare_loop d w1 deps
      | Raise e w1 \<Rightarrow> Raise e w1)"
| "update_status 0 w a s = Raise (RuntimeError ''maximum recursion depth exceeded'') w"
| "update_status (Suc d) w a s =
     (if s \<notin> set [NO_STATUS, WAITING_STATUS, DONE, TOO_MANY_ERRORS, TIMED_OUT] then
        Raise (AssertionError ''Bad action status'') w
      else
        (let w1 = put a ((actions w a)\<lparr>status := s\<rparr>) w;
             w2 = emit (Notify_action a EV_STATUS_CHANGED) w1
         in if s \<notin> set [NO_STATUS, WAITING_STATUS] then
              (let w3 = emit (Notify_action a EV_COMPLETE) w2
               in if children (actions w3 a) \<noteq> [] then
                    children_loop d w3 a (children (actions w3 a))
                  else
                    (case service (actions w3 a) of
                       None \<Rightarrow> Raise (AttributeError ''update_status'') w3
                     | Some sv \<Rightarrow>
                         Return (emit (Service_update_status sv (status (actions w3 a))) w3)))
            else Return w2))"
| "children_loop d w a [] = Return w"
| "children_loop d w a (dep # deps) =
     (if is_ready w dep then
        (case prepare d (emit (Notify_pair a dep EV_TRIGGER_DEP) w) dep of
           Return w1 \<Rightarrow> children_loop d w1 a deps
         | Raise e w1 \<Rightarrow> Raise e w1)
      else children_loop d w a deps)"
  by pat_completeness auto

termination
  by (relation "measures
        [\<lambda>x. case x of
           Inl (Inl (d, w, a)) \<Rightarrow> d
         | Inl (Inr (d, w, deps)) \<Rightarrow> d
         | Inr (Inl (d, w, a, s)) \<Rightarrow> d
         | Inr (Inr (d, w, a, deps)) \<Rightarrow> d,
         \<lambda>x. case x of
           Inl (Inl (d, w, a)) \<Rightarrow> 0
         | Inl (Inr (d, w, deps)) \<Rightarrow> Suc (length deps)
         | Inr (Inl (d, w, a, s)) \<Rightarrow> 0
         | Inr (Inr (d, w, a, deps)) \<Rightarrow> Suc (length deps)]") auto

subsection \<open>The close event of the executor\<close>

definition ev_close :: "nat \<Rightarrow> world \<Rightarrow> aid \<Rightarrow> Worker \<Rightarrow> world outcome" where
  "ev_close d w a wk =
     (let w1 = put a ((actions w a)\<lparr>stop_time := Some (clock w)\<rparr>) w;
          w2 = emit (Remove_task a) w1;
          w3 = put a ((actions w2 a)\<lparr>worker := Some wk\<rparr>) w2;
          err = has_too_many_errors (actions w3 a);
          timed_out = has_timed_out (actions w3 a)
      in if (err \<or> timed_out) \<and> get_retry (actions w3 a) > 0 then
           (case set_retry (actions w3 a) (get_retry (actions w3 a) - 1) of
              Return a1 \<Rightarrow> Return (schedule (put a a1 w3) a True)
            | Raise e a1 \<Rightarrow> Raise e w3)
         else if err then update_status d w3 a TOO_MANY_ERRORS
         else if timed_out then update_status d w3 a TIMED_OUT
         else update_status d w3 a DONE)"

section \<open>What a preparation may change\<close>

text \<open>
  The relations used to reason about the mutual recursion of \<^verbatim>\<open>prepare\<close> and
  \<^verbatim>\<open>update_status\<close>. \<open>frame a\<close> is the action \<open>a\<close> without its status and its start
  time. \<open>evolves w w'\<close> says that \<open>w'\<close> comes from \<open>w\<close> by calls that only add to the
  record of calls, that leave alone every action whose status in \<open>w\<close> is not
  \<open>NO_STATUS\<close>, and that change nothing but statuses and start times; each added call
  is \<open>allowed\<close>: a notification about an action or its dispatch only for an action that
  had \<open>NO_STATUS\<close> in \<open>w\<close>, a notification for a pair only as \<open>EV_TRIGGER_DEP\<close> for a
  child that is ready. \<open>entered w a s\<close> is the state in which \<^verbatim>\<open>update_status\<close> starts
  to look at the children. An outcome is \<open>good\<close> when its state evolves from the given
  one and it is not a failed assertion.
\<close>

definition frame :: "Action \<Rightarrow> Action" where
  "frame a = a\<lparr>status := NO_STATUS, start_time := None\<rparr>"

definition allowed :: "world \<Rightarrow> world \<Rightarrow> effect \<Rightarrow> bool" where
  "allowed w w' e =
     (case e of
        Notify_action x ev \<Rightarrow> status (actions w x) = NO_STATUS
      | Notify_pair x c ev \<Rightarrow> ev = EV_TRIGGER_DEP \<and> is_ready w' c
      | Perform_action x \<Rightarrow> status (actions w x) = NO_STATUS
      | Perform_delayed_action x \<Rightarrow> status (actions w x) = NO_STATUS
      | Remove_task x \<Rightarrow> False
      | Service_update_status sv s \<Rightarrow> True)"

definition evolves :: "world \<Rightarrow> world \<Rightarrow> bool" where
  "evolves w w' =
     ((\<exists>new. calls w' = calls w @ new \<and> list_all (allowed w w') new)
      \<and> (\<forall>x. status (actions w x) \<noteq> NO_STATUS \<longrightarrow> actions w' x = actions w x)
      \<and> (\<forall>x. frame (actions w' x) = frame (actions w x))
      \<and> clock w' = clock w)"

definition good :: "world \<Rightarrow> world outcome \<Rightarrow> bool" where
  "good w out = (evolves w (final out) \<and> (\<forall>msg. raised out \<noteq> Some (AssertionError msg)))"

definition entered :: "world \<Rightarrow> aid \<Rightarrow> status \<Rightarrow> world" where
  "entered w a s =
     (let w2 = emit (Notify_action a EV_STATUS_CHANGED) (put a ((actions w a)\<lparr>status := s\<rparr>) w)
      in if s \<notin> set [NO_STATUS, WAITING_STATUS] then emit (Notify_action a EV_COMPLETE) w2
         else w2)"

text \<open>
  \<open>closed w a wk\<close> is the state in which \<^verbatim>\<open>ev_close\<close> classifies the attempt: the stop
  time is stamped, the removal from the running tasks is asked for and the worker is
  stored.
\<close>

definition closed :: "world \<Rightarrow> aid \<Rightarrow> Worker \<Rightarrow> world" where
  "closed w a wk =
     (let w1 = put a ((actions w a)\<lparr>stop_time := Some (clock w)\<rparr>) w;
          w2 = emit (Remove_task a) w1
      in put a ((actions w2 a)\<lparr>worker := Some wk\<rparr>) w2)"

section \<open>The command resolver\<close>

text \<open>
  The resolver reads objects through \<^verbatim>\<open>hasattr\<close>, \<^verbatim>\<open>getattr\<close> and their
  \<^verbatim>\<open>variables\<close> dictionary, so an object is its attribute namespace and its
  variables. A value is a string, a callable (a method), or something else
  (\<^verbatim>\<open>None\<close>, a number, a dictionary). The resolver can only hand a value to
  \<^verbatim>\<open>sub\<close> as the replacement, and \<^verbatim>\<open>sub\<close> calls a callable with the match it has
  found: \<open>Callable f\<close> is a callable that, for the match of the text \<open>m\<close>, gives the
  text \<open>f m\<close> (the empty text when it returns \<^verbatim>\<open>None\<close>) or raises.
\<close>

datatype pyval = Str string | Callable "string \<Rightarrow> error + string" | Other

record entity =
  attrs :: "string \<rightharpoonup> pyval"
  variables :: "string \<rightharpoonup> pyval"

definition hasattr :: "entity \<Rightarrow> string \<Rightarrow> bool" where
  "hasattr obj n = (attrs obj n \<noteq> None)"

definition getattr :: "entity \<Rightarrow> string \<Rightarrow> pyval" where
  "getattr obj n = (case attrs obj n of Some v \<Rightarrow> v | None \<Rightarrow> Other)"

definition getitem :: "(string \<rightharpoonup> pyval) \<Rightarrow> string \<Rightarrow> pyval" where
  "getitem m k = (case m k of Some v \<Rightarrow> v | None \<Rightarrow> Other)"

subsection \<open>Strings\<close>

text \<open>\<^verbatim>\<open>str.lower\<close> on bytes: the letters A to Z move to a to z.\<close>

definition lower_char :: "char \<Rightarrow> char" where
  "lower_char c =
     (let n = (of_char c :: nat) in if 65 \<le> n \<and> n \<le> 90 then char_of (n + 32) else c)"

definition lower :: "string \<Rightarrow> string" where
  "lower s = map lower_char s"

text \<open>The class \<^verbatim>\<open>\w\<close> of a byte string pattern: letters, digits and the underscore.\<close>

definition word_char :: "char \<Rightarrow> bool" where
  "word_char c =
     (let n = (of_char c :: nat)
      in (48 \<le> n \<and> n \<le> 57) \<or> (65 \<le> n \<and> n \<le> 90) \<or> (97 \<le> n \<and> n \<le> 122) \<or> n = 95)"

text \<open>
  \<^verbatim>\<open>findall('\${1}[\w]+', s)\<close>: the matches from left to right, each a dollar sign and
  the longest run of word characters after it; a dollar sign that no word character
  follows matches nothing.
\<close>

function findall :: "string \<Rightarrow> string list" where
  "findall [] = []"
| "findall (c # cs) =
     (if c = CHR ''$'' \<and> takeWhile word_char cs \<noteq> [] then
        (c # takeWhile word_char cs) # findall (dropWhile word_char cs)
      else findall cs)"
  by pat_completeness auto

termination
  by (relation "measure length") (auto simp add: length_dropWhile_le less_Suc_eq_le)

text \<open>\<^verbatim>\<open>symbol.lstrip('$')\<close>.\<close>

definition lstrip_dollar :: "string \<Rightarrow> string" where
  "lstrip_dollar s = dropWhile (\<lambda>c. c = CHR ''$'') s"

text \<open>
  Replacing, from left to right, every occurrence of a text that does not overlap an
  earlier one: what \<^verbatim>\<open>sub\<close> does with a pattern that matches one text only.
\<close>

function replace_all :: "string \<Rightarrow> string \<Rightarrow> string \<Rightarrow> string" where
  "replace_all pat rep [] = []"
| "replace_all pat rep (c # cs) =
     (if pat \<noteq> [] \<and> prefix pat (c # cs) then rep @ replace_all pat rep (drop (length pat) (c # cs))
      else c # replace_all pat rep cs)"
  by pat_completeness auto

termination
  by (relation "measure (\<lambda>(pat, rep, s). length s)") auto

text \<open>
  The same with a replacement computed for each match: \<open>f\<close> is called on the text
  matched, from left to right, and the first call that raises ends the substitution.
\<close>

function replace_with :: "(string \<Rightarrow> error + string) \<Rightarrow> string \<Rightarrow> string \<Rightarrow> error + string" where
  "replace_with f pat [] = Inr []"
| "replace_with f pat (c # cs) =
     (if pat \<noteq> [] \<and> prefix pat (c # cs) then
        (case f pat of
           Inl e \<Rightarrow> Inl e
         | Inr rep \<Rightarrow>
             (case replace_with f pat (drop (length pat) (c # cs)) of
                Inl e \<Rightarrow> Inl e
              | Inr rest \<Rightarrow> Inr (rep @ rest)))
      else
        (case replace_with f pat cs of
           Inl e \<Rightarrow> Inl e
         | Inr rest \<Rightarrow> Inr (c # rest)))"
  by pat_completeness auto

termination
  by (relation "measure (\<lambda>(f, pat, s). length s)") auto

text \<open>
  \<^verbatim>\<open>sub('\%s' % symbol, repl, string)\<close>. The pattern is a backslash before the symbol:
  the dollar sign is escaped and the word characters stand for themselves, so the
  pattern matches the text of the symbol and nothing else. \<^verbatim>\<open>sub\<close> calls a callable
  replacement for each match. A string with no backslash replaces each match as it is.
  A string that holds a backslash is a template, which \<^verbatim>\<open>re\<close> parses before it looks
  for a match; anything else is handed to the same parser, which raises \<open>TypeError\<close>.
  The language of templates belongs to the library and not to the repository, so the
  parser is an argument: \<open>tmpl v\<close> is the error that parsing \<open>v\<close> raises, or the
  function that gives, for the match of a text, its expansion or the error that the
  expansion raises.
\<close>

type_synonym template_parser = "string \<Rightarrow> error + (string \<Rightarrow> error + string)"

definition re_sub :: "template_parser \<Rightarrow> string \<Rightarrow> pyval \<Rightarrow> string \<Rightarrow> error + string" where
  "re_sub tmpl symbol repl s =
     (case repl of
        Callable f \<Rightarrow> replace_with f symbol s
      | Other \<Rightarrow> Inl (TypeError ''replacement is not a string'')
      | Str v \<Rightarrow>
          if CHR 0x5C \<notin> set v then Inr (replace_all symbol v s)
          else (case tmpl v of
                  Inl e \<Rightarrow> Inl e
                | Inr expand \<Rightarrow> replace_with expand symbol s))"

subsection \<open>The resolution of a command\<close>

text \<open>The message built by the constructor of \<^verbatim>\<open>UndefinedVariableError\<close>.\<close>

definition undefined_msg :: "string \<Rightarrow> string \<Rightarrow> string" where
  "undefined_msg varname cmd = ''Variable ['' @ varname @ ''] undefined in ['' @ cmd @ '']''"

text \<open>
  The body of the loop of \<^verbatim>\<open>resolved_command\<close> for one symbol: \<open>tmpl\<close> is the parser
  of templates of \<^verbatim>\<open>re\<close>, \<open>self\<close> is the action,
  \<open>sv\<close> its \<^verbatim>\<open>service\<close> (which may be \<^verbatim>\<open>None\<close>), \<open>mg\<close> the object returned by
  \<^verbatim>\<open>service_manager_self()\<close>, \<open>cmd\<close> is \<^verbatim>\<open>self.command\<close>. On \<^verbatim>\<open>None\<close> the
  third test is false: \<^verbatim>\<open>None\<close> has only the attributes that every object has, and
  for those the first test has already succeeded.
\<close>

definition resolve_symbol ::
  "template_parser \<Rightarrow> entity \<Rightarrow> entity option \<Rightarrow> entity \<Rightarrow> string \<Rightarrow> string \<Rightarrow> string
     \<Rightarrow> error + string" where
  "resolve_symbol tmpl self sv mg cmd symbol final_cmd =
     (let varname = lstrip_dollar symbol
      in if hasattr self (lower varname) then
           re_sub tmpl symbol (getattr self (lower varname)) final_cmd
         else if varname \<in> dom (variables self) then
           re_sub tmpl symbol (getitem (variables self) varname) final_cmd
         else if (case sv of None \<Rightarrow> False | Some s \<Rightarrow> hasattr s (lower varname)) then
           re_sub tmpl symbol (case sv of None \<Rightarrow> Other | Some s \<Rightarrow> getattr s (lower varname)) final_cmd
         else if (case sv of None \<Rightarrow> False | Some s \<Rightarrow> varname \<in> dom (variables s)) then
           re_sub tmpl symbol (case sv of None \<Rightarrow> Other | Some s \<Rightarrow> getitem (variables s) varname)
             final_cmd
         else if hasattr mg (lower varname) then
           re_sub tmpl symbol (getattr mg (lower varname)) final_cmd
         else if varname \<in> dom (variables mg) then
           re_sub tmpl symbol (getitem (variables mg) varname) final_cmd
         else Inl (UndefinedVariableError (undefined_msg varname cmd)))"

fun resolve_loop ::
  "template_parser \<Rightarrow> entity \<Rightarrow> entity option \<Rightarrow> entity \<Rightarrow> string \<Rightarrow> string list \<Rightarrow> string
     \<Rightarrow> error + string" where
  "resolve_loop tmpl self sv mg cmd [] final_cmd = Inr final_cmd"
| "resolve_loop tmpl self sv mg cmd (symbol # symbols) final_cmd =
     (case resolve_symbol tmpl self sv mg cmd symbol final_cmd of
        Inl e \<Rightarrow> Inl e
      | Inr s \<Rightarrow> resolve_loop tmpl self sv mg cmd symbols s)"

text \<open>
  \<^verbatim>\<open>resolved_command\<close>: \<^verbatim>\<open>self.command\<close> is the attribute \<open>command\<close> of the action;
  \<^verbatim>\<open>findall\<close> refuses what is not a string.
\<close>

definition resolved_command ::
  "template_parser \<Rightarrow> entity \<Rightarrow> entity option \<Rightarrow> entity \<Rightarrow> error + string" where
  "resolved_command tmpl self sv mg =
     (case attrs self ''command'' of
        None \<Rightarrow> Inl (AttributeError ''command'')
      | Some (Str cmd) \<Rightarrow> resolve_loop tmpl self sv mg cmd (findall cmd) cmd
      | Some other \<Rightarrow> Inl (TypeError ''expected string or buffer''))"


subsection \<open>The resolution order in the words of the spec\<close>

text \<open>
  The six places of the spec, in its order; the first that has the name wins. The
  attributes are asked for the lowercased name, the variables for the name as written.
\<close>

definition spec_lookup :: "entity \<Rightarrow> entity option \<Rightarrow> entity \<Rightarrow> string \<Rightarrow> pyval option" where
  "spec_lookup self sv mg n =
     (case List.map_filter id
             [attrs self (lower n),
              variables self n,
              Option.bind sv (\<lambda>s. attrs s (lower n)),
              Option.bind sv (\<lambda>s. variables s n),
              attrs mg (lower n),
              variables mg n] of
        [] \<Rightarrow> None
      | v # _ \<Rightarrow> Some v)"

text \<open>
  The template read as the spec reads it: a text in which each token stands for its
  value. \<open>expand_tokens val s\<close> is \<open>s\<close> with each token replaced by the value that
  \<open>val\<close> gives to its name, the rest copied.
\<close>

function expand_tokens :: "(string \<Rightarrow> string) \<Rightarrow> string \<Rightarrow> string" where
  "expand_tokens val [] = []"
| "expand_tokens val (c # cs) =
     (if c = CHR ''$'' \<and> takeWhile word_char cs \<noteq> [] then
        val (takeWhile word_char cs) @ expand_tokens val (dropWhile word_char cs)
      else c # expand_tokens val cs)"
  by pat_completeness auto

termination
  by (relation "measure (\<lambda>(val, s). length s)") (auto simp add: length_dropWhile_le less_Suc_eq_le)

text \<open>
  \<open>resolves n\<close> says that the name \<open>n\<close> is found, as a string with no backslash;
  \<open>value_of n\<close> is then that string.
\<close>

definition resolves :: "entity \<Rightarrow> entity option \<Rightarrow> entity \<Rightarrow> string \<Rightarrow> bool" where
  "resolves self sv mg n =
     (case spec_lookup self sv mg n of Some (Str v) \<Rightarrow> CHR 0x5C \<notin> set v | _ \<Rightarrow> False)"

definition value_of :: "entity \<Rightarrow> entity option \<Rightarrow> entity \<Rightarrow> string \<Rightarrow> string" where
  "value_of self sv mg n = (case spec_lookup self sv mg n of Some (Str v) \<Rightarrow> v | _ \<Rightarrow> [])"

text \<open>
  \<open>pexpand D val s\<close> is the template \<open>s\<close> in which the tokens whose name is in \<open>D\<close>
  are replaced by their values and the others are left as they are: the string that
  the loop has built when the names of \<open>D\<close> are done. \<open>double_dollar s\<close> says that
  \<open>s\<close> holds two dollar signs in a row.
\<close>

function pexpand :: "string set \<Rightarrow> (string \<Rightarrow> string) \<Rightarrow> string \<Rightarrow> string" where
  "pexpand D val [] = []"
| "pexpand D val (c # cs) =
     (if c = CHR ''$'' \<and> takeWhile word_char cs \<noteq> [] then
        (if takeWhile word_char cs \<in> D then val (takeWhile word_char cs)
         else c # takeWhile word_char cs) @ pexpand D val (dropWhile word_char cs)
      else c # pexpand D val cs)"
  by pat_completeness auto

termination
  by (relation "measure (\<lambda>(D, val, s). length s)")
    (auto simp add: length_dropWhile_le less_Suc_eq_le)

fun double_dollar :: "string \<Rightarrow> bool" where
  "double_dollar (a # b # r) = ((a = CHR ''$'' \<and> b = CHR ''$'') \<or> double_dollar (b # r))"
| "double_dollar r = False"

text \<open>
  \<open>expand_token n v s\<close> is \<open>s\<close> with every token of the name \<open>n\<close> replaced by \<open>v\<close>,
  the other tokens and the rest copied. \<open>longer_token_free val ts s\<close> follows the loop
  over the tokens \<open>ts\<close> from the string \<open>s\<close> and says that, at each step, no token of
  the string built so far is a longer token that begins with the token of the step.
\<close>

function expand_token :: "string \<Rightarrow> string \<Rightarrow> string \<Rightarrow> string" where
  "expand_token n v [] = []"
| "expand_token n v (c # cs) =
     (if c = CHR ''$'' \<and> takeWhile word_char cs \<noteq> [] then
        (if takeWhile word_char cs = n then v else c # takeWhile word_char cs)
          @ expand_token n v (dropWhile word_char cs)
      else c # expand_token n v cs)"
  by pat_completeness auto

termination
  by (relation "measure (\<lambda>(n, v, s). length s)")
    (auto simp add: length_dropWhile_le less_Suc_eq_le)

fun longer_token_free :: "(string \<Rightarrow> string) \<Rightarrow> string list \<Rightarrow> string \<Rightarrow> bool" where
  "longer_token_free val [] s = True"
| "longer_token_free val (t # ts) s =
     (list_all (\<lambda>u. \<not> strict_prefix t u) (findall s)
      \<and> longer_token_free val ts (expand_token (tl t) (val (tl t)) s))"

section \<open>The Action Manager\<close>

text \<open>
  Modelled from the spec: the Action Manager (\<^verbatim>\<open>MilkCheck.ActionManager\<close>) is not
  among the sources, only its tests are. The spec: \<^verbatim>\<open>add_task(a)\<close> inserts \<open>a\<close> into
  the running set (idempotent by identity) and recomputes the effective fan-out;
  \<^verbatim>\<open>remove_task(a)\<close> removes it and recomputes the effective fan-out from the remaining
  members; the effective fan-out is the minimum of the fan-outs of the running actions
  that have one, and unset when no running action has one. \<open>manager_fanout\<close> is the
  attribute \<^verbatim>\<open>fanout\<close> of the manager, \<open>running_tasks\<close> the running set in the order of
  insertion.
\<close>

record ActionManager =
  running_tasks :: "aid list"
  manager_fanout :: "int option"

definition new_manager :: ActionManager where
  "new_manager = \<lparr>running_tasks = [], manager_fanout = None\<rparr>"

definition effective_fanout :: "world \<Rightarrow> aid list \<Rightarrow> int option" where
  "effective_fanout w running =
     (case List.map_filter (\<lambda>a. fanout (actions w a)) running of
        [] \<Rightarrow> None
      | f # fs \<Rightarrow> Some (fold min fs f))"

definition add_task :: "world \<Rightarrow> ActionManager \<Rightarrow> aid \<Rightarrow> ActionManager" where
  "add_task w m a =
     (let running = (if a \<in> set (running_tasks m) then running_tasks m
                     else running_tasks m @ [a])
      in m\<lparr>running_tasks := running, manager_fanout := effective_fanout w running\<rparr>)"

definition remove_task :: "world \<Rightarrow> ActionManager \<Rightarrow> aid \<Rightarrow> ActionManager" where
  "remove_task w m a =
     (let running = removeAll a (running_tasks m)
      in m\<lparr>running_tasks := running, manager_fanout := effective_fanout w running\<rparr>)"

definition tasks_count :: "ActionManager \<Rightarrow> nat" where
  "tasks_count m = length (running_tasks m)"

text \<open>A run of the manager: a sequence of additions and removals.\<close>

datatype task_op = Add aid | Remove aid

fun apply_task_op :: "world \<Rightarrow> ActionManager \<Rightarrow> task_op \<Rightarrow> ActionManager" where
  "apply_task_op w m (Add a) = add_task w m a"
| "apply_task_op w m (Remove a) = remove_task w m a"

definition run_task_ops :: "world \<Rightarrow> task_op list \<Rightarrow> ActionManager" where
  "run_task_ops w ops = foldl (apply_task_op w) new_manager ops"

text \<open>The fan-outs that are set among the running actions.\<close>

definition set_fanouts :: "world \<Rightarrow> aid list \<Rightarrow> int set" where
  "set_fanouts w running = {f. \<exists>a \<in> set running. fanout (actions w a) = Some f}"

section \<open>Concrete objects\<close>

text \<open>Objects on which the theorems below are instantiated.\<close>

definition base0 :: BaseEntity where
  "base0 = \<lparr>name = ''start'', target = None, status = NO_STATUS, parents = [],
             children = [], errors = 0, fanout = None\<rparr>"

definition wk1 :: Worker where
  "wk1 = \<lparr>iter_retcodes = [(0, [''n1'', ''n2'']), (1, [''n3'']), (2, [''n4'', ''n5''])],
           did_timeout = False\<rparr>"

definition world0 :: world where
  "world0 = \<lparr>actions = (\<lambda>x. Action_init base0 None 0 0), calls = [], clock = 0\<rparr>"

definition with_fanout :: "aid \<Rightarrow> int option \<Rightarrow> world \<Rightarrow> world" where
  "with_fanout a f w = put a ((actions w a)\<lparr>fanout := f\<rparr>) w"

definition world_remove :: world where
  "world_remove =
     with_fanout 4 (Some 148) (with_fanout 3 (Some 85) (with_fanout 2 (Some 85)
       (with_fanout 1 (Some 260) world0)))"

definition world_weird :: world where
  "world_weird =
     with_fanout 3 (Some 50) (with_fanout 2 None (with_fanout 1 (Some 60) world0))"

definition wk_timeout :: Worker where
  "wk_timeout = \<lparr>iter_retcodes = [], did_timeout = True\<rparr>"

definition wk_ok :: Worker where
  "wk_ok = \<lparr>iter_retcodes = [(0, [''n1'', ''n2''])], did_timeout = False\<rparr>"

definition world_retry :: "int \<Rightarrow> world" where
  "world_retry r =
     \<lparr>actions = (\<lambda>x. (Action_init (base0\<lparr>status := WAITING_STATUS\<rparr>) None 0 5)
                         \<lparr>retry := r, retry_backup := 2, service := Some 7,
                           start_time := Some 1\<rparr>),
      calls = [], clock = 9\<rparr>"

definition node :: "aid list \<Rightarrow> aid list \<Rightarrow> status \<Rightarrow> Action" where
  "node ps cs st =
     (Action_init (base0\<lparr>status := st, parents := ps, children := cs\<rparr>) None 0 0)
       \<lparr>service := Some 7\<rparr>"

definition world_dag :: "status \<Rightarrow> world" where
  "world_dag st =
     \<lparr>actions = (\<lambda>x. Action_init base0 None 0 0)
                  (1 := node [] [2] st, 2 := node [1] [] NO_STATUS),
      calls = [], clock = 5\<rparr>"




definition ex_manager :: entity where
  "ex_manager = \<lparr>attrs = [''fanout'' \<mapsto> Other], variables = [''GLOBAL'' \<mapsto> Str ''g'']\<rparr>"

definition ex_rec :: entity where
  "ex_rec =
     \<lparr>attrs = [''command'' \<mapsto> Str ''$A $B''],
      variables = [''A'' \<mapsto> Str ''$B'', ''B'' \<mapsto> Str ''x'']\<rparr>"

definition ex_plain :: entity where
  "ex_plain =
     \<lparr>attrs = [''command'' \<mapsto> Str ''cp $SRC $DST; ls $DST''],
      variables = [''SRC'' \<mapsto> Str ''/a'', ''DST'' \<mapsto> Str ''/b'']\<rparr>"

text \<open>
  A parser of templates that knows no escape. The objects above hold no backslash, so
  it is never asked.
\<close>

definition literal_parser :: template_parser where
  "literal_parser v = Inr (\<lambda>m. Inr v)"

definition ex_plain2 :: entity where
  "ex_plain2 =
     \<lparr>attrs = [''command'' \<mapsto> Str ''cp $SRC $DST; ls $DST'', ''name'' \<mapsto> Str ''copy''],
      variables = [''SRC'' \<mapsto> Str ''/a'', ''DST'' \<mapsto> Str ''/b'', ''B'' \<mapsto> Str ''unused'']\<rparr>"

definition world_nodelay :: world where
  "world_nodelay =
     \<lparr>actions = (\<lambda>x. (Action_init (base0\<lparr>status := WAITING_STATUS\<rparr>) None 0 0)
                         \<lparr>retry := 1, retry_backup := 1, service := Some 7,
                           start_time := Some 1\<rparr>),
      calls = [], clock = 9\<rparr>"

section \<open>The attributes of an action\<close>

lemma Action_init_sel:
  "retry (Action_init b c t d) = 0"
  "retry_backup (Action_init b c t d) = - 1"
  "delay (Action_init b c t d) = d"
  "timeout (Action_init b c t d) = t"
  "command (Action_init b c t d) = c"
  "worker (Action_init b c t d) = None"
  "service (Action_init b c t d) = None"
  "start_time (Action_init b c t d) = None"
  "stop_time (Action_init b c t d) = None"
  "status (Action_init b c t d) = status b"
  "parents (Action_init b c t d) = parents b"
  "children (Action_init b c t d) = children b"
  "errors (Action_init b c t d) = errors b"
  "fanout (Action_init b c t d) = fanout b"
  by (cases b; simp add: Action_init_def BaseEntity.extend_def Action.fields_def)+

subsection \<open>Too many errors\<close>

lemma failed_nodes_nonneg: "0 \<le> failed_nodes gs"
  unfolding failed_nodes_def by (induction gs) (auto split: prod.splits)

lemma failed_nodes_Cons:
  "failed_nodes ((rc, nds) # gs) = (if rc \<noteq> 0 then int (length nds) else 0) + failed_nodes gs"
  by (simp add: failed_nodes_def)

lemma failed_nodes_no_failure:
  "\<forall>g \<in> set gs. fst g = 0 \<Longrightarrow> failed_nodes gs = 0"
  unfolding failed_nodes_def by (induction gs) (auto split: prod.splits)

lemma failed_nodes_no_nodes:
  "\<forall>g \<in> set gs. snd g = [] \<Longrightarrow> failed_nodes gs = 0"
  unfolding failed_nodes_def by (induction gs) (auto split: prod.splits)

lemma failed_nodes_pos_failure:
  "0 < failed_nodes gs \<Longrightarrow> \<exists>g \<in> set gs. fst g \<noteq> 0"
  using failed_nodes_no_failure [of gs] by fastforce

text \<open>
  The flag of the loop is raised as soon as the running count passes the tolerance.
  The count never goes down, so the flag at the end says whether a group of a non-zero
  return code was seen and the last count passes the tolerance.
\<close>

lemma retcodes_loop_eq:
  "retcodes_loop errs gs cnt tm =
     (tm \<or> ((\<exists>g \<in> set gs. fst g \<noteq> 0) \<and> errs < cnt + failed_nodes gs))"
proof (induction gs arbitrary: cnt tm)
  case Nil
  then show ?case by simp
next
  case (Cons g gs)
  obtain rc nds where g: "g = (rc, nds)" by (cases g)
  have nn: "0 \<le> failed_nodes gs" by (rule failed_nodes_nonneg)
  show ?case
  proof (cases "rc = 0")
    case True
    then show ?thesis using Cons.IH g by (simp add: failed_nodes_Cons)
  next
    case False
    show ?thesis
    proof (cases "\<exists>g \<in> set gs. fst g \<noteq> 0")
      case True
      then show ?thesis using False g nn
        by (auto simp add: Cons.IH failed_nodes_Cons Let_def)
    next
      case F: False
      then have "failed_nodes gs = 0" using failed_nodes_no_failure by blast
      then show ?thesis using False g F
        by (auto simp add: Cons.IH failed_nodes_Cons Let_def)
    qed
  qed
qed

text \<open>
  Claim C7. For an action whose tolerance \<open>errors\<close> is not negative,
  \<^verbatim>\<open>has_too_many_errors\<close> is true exactly when the action has a worker and the number
  of nodes in the worker's groups of a non-zero return code is strictly greater than
  \<open>errors\<close>. An action with no worker, and a worker all of whose groups are empty,
  never give true.
\<close>

theorem has_too_many_errors_iff:
  "0 \<le> errors a \<Longrightarrow>
     (has_too_many_errors a =
        (\<exists>wk. worker a = Some wk \<and> errors a < failed_nodes (iter_retcodes wk)))
     \<and> (worker a = None \<longrightarrow> \<not> has_too_many_errors a)
     \<and> (\<forall>wk. worker a = Some wk \<and> (\<forall>g \<in> set (iter_retcodes wk). snd g = [])
            \<longrightarrow> \<not> has_too_many_errors a)"
proof (cases "worker a")
  case None
  then show ?thesis by (simp add: has_too_many_errors_def)
next
  case (Some wk)
  assume e: "0 \<le> errors a"
  have main: "has_too_many_errors a = (errors a < failed_nodes (iter_retcodes wk))"
    using Some e failed_nodes_pos_failure [of "iter_retcodes wk"]
    by (auto simp add: has_too_many_errors_def retcodes_loop_eq)
  have zero: "(\<forall>g \<in> set (iter_retcodes wk). snd g = []) \<Longrightarrow> \<not> has_too_many_errors a"
    using main e failed_nodes_no_nodes [of "iter_retcodes wk"] by simp
  show ?thesis using Some main zero by auto
qed

theorem has_too_many_errors_witness:
  "0 \<le> errors ((Action_init base0 None 0 0)\<lparr>worker := Some wk1, errors := 2\<rparr>)
   \<and> has_too_many_errors ((Action_init base0 None 0 0)\<lparr>worker := Some wk1, errors := 2\<rparr>)
   \<and> failed_nodes (iter_retcodes wk1) = 3
   \<and> \<not> has_too_many_errors ((Action_init base0 None 0 0)\<lparr>worker := Some wk1, errors := 3\<rparr>)
   \<and> \<not> has_too_many_errors ((Action_init base0 None 0 0)\<lparr>errors := 0\<rparr>)"
  using has_too_many_errors_iff [of "(Action_init base0 None 0 0)\<lparr>worker := Some wk1, errors := 2\<rparr>"]
    has_too_many_errors_iff [of "(Action_init base0 None 0 0)\<lparr>worker := Some wk1, errors := 3\<rparr>"]
    has_too_many_errors_iff [of "(Action_init base0 None 0 0)\<lparr>errors := 0\<rparr>"]
  by (simp add: Action_init_sel wk1_def failed_nodes_def)

subsection \<open>The retry property and the reset\<close>

text \<open>
  Claim C8. Assigning \<open>retry\<close> raises \<open>AssertionError\<close>, and changes nothing, when the
  delay of the action is 0 or the value is negative. When the delay is positive and
  the value is not negative, the assignment stores the value, and it stores it in
  \<open>retry_backup\<close> too when \<open>retry_backup\<close> still holds \<open>-1\<close>. On a new action the first
  such assignment therefore records the value in \<open>retry_backup\<close>, and a later one
  leaves \<open>retry_backup\<close> as it is.
\<close>

theorem set_retry_contract:
  "(delay a = 0 \<or> r < 0 \<longrightarrow>
      (\<exists>msg. set_retry a r = Raise (AssertionError msg) a))
   \<and> (0 < delay a \<and> 0 \<le> r \<longrightarrow>
        set_retry a r =
          Return (a\<lparr>retry := r,
                     retry_backup := (if retry_backup a = - 1 then r else retry_backup a)\<rparr>))
   \<and> (0 < d \<and> 0 \<le> r \<longrightarrow>
        set_retry (Action_init b c t d) r =
          Return ((Action_init b c t d)\<lparr>retry := r, retry_backup := r\<rparr>))
   \<and> (0 < d \<and> 0 \<le> r \<and> 0 \<le> r' \<longrightarrow>
        set_retry ((Action_init b c t d)\<lparr>retry := r, retry_backup := r\<rparr>) r' =
          Return ((Action_init b c t d)\<lparr>retry := r', retry_backup := r\<rparr>))"
  by (auto simp add: set_retry_def Action_init_sel)

theorem set_retry_contract_witness:
  "set_retry (Action_init base0 None 0 0) 2 =
     Raise (AssertionError ''No way to specify retry without a delay'') (Action_init base0 None 0 0)
   \<and> set_retry (Action_init base0 None 0 5) (- 3) =
     Raise (AssertionError ''No way to specify a negative retry'') (Action_init base0 None 0 5)
   \<and> set_retry (Action_init base0 None 0 5) 2 =
     Return ((Action_init base0 None 0 5)\<lparr>retry := 2, retry_backup := 2\<rparr>)
   \<and> set_retry ((Action_init base0 None 0 5)\<lparr>retry := 2, retry_backup := 2\<rparr>) 1 =
     Return ((Action_init base0 None 0 5)\<lparr>retry := 1, retry_backup := 2\<rparr>)"
  using set_retry_contract [where a = "Action_init base0 None 0 0" and r = 2 and d = 5
      and b = base0 and c = None and t = 0 and r' = 1]
    set_retry_contract [where a = "Action_init base0 None 0 5" and r = "- 3" and d = 5
      and b = base0 and c = None and t = 0 and r' = 1]
  by (simp add: Action_init_sel set_retry_def)

text \<open>
  Claim C10. A new action has \<open>retry = 0\<close> and \<open>retry_backup = -1\<close>, and an assignment
  of \<open>retry\<close> that fails leaves the action as it was. On an action whose
  \<open>retry_backup\<close> is still \<open>-1\<close>, \<^verbatim>\<open>reset\<close> sets \<open>retry\<close> to \<open>-1\<close>, a negative value,
  and clears \<open>start_time\<close>, \<open>stop_time\<close> and \<open>worker\<close>.
\<close>

theorem reset_without_retry:
  "retry (Action_init b c t d) = 0
   \<and> retry_backup (Action_init b c t d) = - 1
   \<and> (\<forall>e a'. set_retry a r = Raise e a' \<longrightarrow> a' = a)
   \<and> (retry_backup a = - 1 \<longrightarrow>
        retry (reset a) = - 1 \<and> retry (reset a) < 0 \<and> retry_backup (reset a) = - 1
        \<and> start_time (reset a) = None \<and> stop_time (reset a) = None \<and> worker (reset a) = None)"
  by (auto simp add: Action_init_sel reset_def BaseEntity_reset_def set_retry_def Let_def
      split: if_splits)

theorem reset_without_retry_witness:
  "retry (Action_init base0 None 0 0) = 0
   \<and> retry_backup (Action_init base0 None 0 0) = - 1
   \<and> retry (reset (Action_init base0 None 0 0)) = - 1
   \<and> start_time (reset (Action_init base0 None 0 0)) = None
   \<and> stop_time (reset (Action_init base0 None 0 0)) = None
   \<and> worker (reset (Action_init base0 None 0 0)) = None
   \<and> final (set_retry (Action_init base0 None 0 0) 3) = Action_init base0 None 0 0"
  using reset_without_retry [where b = base0 and c = None and t = 0 and d = 0
      and a = "Action_init base0 None 0 0" and r = 3]
  by (simp add: Action_init_sel set_retry_def)

section \<open>The fan-out of the Action Manager\<close>

lemma set_map_filter_fanout:
  "set (List.map_filter (\<lambda>a. fanout (actions w a)) running) = set_fanouts w running"
  by (induction running) (auto simp add: set_fanouts_def split: option.splits)

lemma effective_fanout_Min:
  "effective_fanout w running =
     (if set_fanouts w running = {} then None else Some (Min (set_fanouts w running)))"
proof (cases "List.map_filter (\<lambda>a. fanout (actions w a)) running")
  case Nil
  then have "set_fanouts w running = {}"
    using set_map_filter_fanout [of w running] by simp
  then show ?thesis using Nil by (simp add: effective_fanout_def)
next
  case (Cons f fs)
  then have s: "set_fanouts w running = set (f # fs)"
    using set_map_filter_fanout [of w running] by simp
  have "fold min fs f = Min (set (f # fs))" by (simp only: Min.set_eq_fold)
  then show ?thesis using Cons s by (simp add: effective_fanout_def)
qed

lemma add_task_sel:
  "running_tasks (add_task w m a) =
     (if a \<in> set (running_tasks m) then running_tasks m else running_tasks m @ [a])"
  "manager_fanout (add_task w m a) = effective_fanout w (running_tasks (add_task w m a))"
  by (simp_all add: add_task_def Let_def)

lemma remove_task_sel:
  "running_tasks (remove_task w m a) = removeAll a (running_tasks m)"
  "manager_fanout (remove_task w m a) = effective_fanout w (running_tasks (remove_task w m a))"
  by (simp_all add: remove_task_def Let_def)

lemma effective_fanout_Nil: "effective_fanout w [] = None"
  by (simp add: effective_fanout_def)

lemma run_task_ops_snoc:
  "run_task_ops w (ops @ [x]) = apply_task_op w (run_task_ops w ops) x"
  by (simp add: run_task_ops_def)

lemma run_task_ops_fanout:
  "manager_fanout (run_task_ops w ops) = effective_fanout w (running_tasks (run_task_ops w ops))"
proof (induction ops rule: rev_induct)
  case Nil
  then show ?case by (simp add: run_task_ops_def new_manager_def effective_fanout_def)
next
  case (snoc x xs)
  show ?case
    by (cases x) (simp_all add: run_task_ops_snoc add_task_sel remove_task_sel)
qed

text \<open>
  Claim C3. After every \<^verbatim>\<open>add_task\<close> and every \<^verbatim>\<open>remove_task\<close>, and so after any
  run of the manager, the fan-out of the manager is the effective fan-out of its
  running set. The effective fan-out of a running set is the least of the fan-outs that
  are set among its members, and unset when none is set (members with no fan-out are
  ignored). \<^verbatim>\<open>add_task\<close> inserts the action, \<^verbatim>\<open>remove_task\<close> removes it, and when
  the running set becomes empty the fan-out is unset again.
\<close>

theorem manager_fanout_minimum:
  "manager_fanout (add_task w m a) = effective_fanout w (running_tasks (add_task w m a))
   \<and> manager_fanout (remove_task w m a) = effective_fanout w (running_tasks (remove_task w m a))
   \<and> manager_fanout (run_task_ops w ops) = effective_fanout w (running_tasks (run_task_ops w ops))
   \<and> effective_fanout w running =
       (if set_fanouts w running = {} then None else Some (Min (set_fanouts w running)))
   \<and> set (running_tasks (add_task w m a)) = insert a (set (running_tasks m))
   \<and> set (running_tasks (remove_task w m a)) = set (running_tasks m) - {a}
   \<and> (running_tasks (remove_task w m a) = [] \<longrightarrow> manager_fanout (remove_task w m a) = None)"
  using effective_fanout_Min [of w running] run_task_ops_fanout [of w ops]
  by (auto simp add: add_task_sel remove_task_sel effective_fanout_Nil)

lemma with_fanout_sel:
  "fanout (actions (with_fanout a f w) x) = (if x = a then f else fanout (actions w x))"
  by (simp add: with_fanout_def put_def)

lemma world0_fanout: "fanout (actions world0 x) = None"
  by (simp add: world0_def Action_init_sel base0_def)

text \<open>
  The scenarios of \<^verbatim>\<open>test_remove_task\<close> and \<^verbatim>\<open>test_add_task_weird_values\<close>.
\<close>

theorem manager_fanout_witness:
  "manager_fanout (run_task_ops world_remove [Add 1, Add 2, Add 3, Add 4]) = Some 85
   \<and> manager_fanout (run_task_ops world_remove [Add 1, Add 2, Add 3, Add 4, Remove 2]) = Some 85
   \<and> manager_fanout (run_task_ops world_remove [Add 1, Add 2, Add 3, Add 4, Remove 2, Remove 3])
       = Some 148
   \<and> manager_fanout
       (run_task_ops world_remove [Add 1, Add 2, Add 3, Add 4, Remove 2, Remove 3, Remove 4])
       = Some 260
   \<and> manager_fanout
       (run_task_ops world_remove
          [Add 1, Add 2, Add 3, Add 4, Remove 2, Remove 3, Remove 4, Remove 1]) = None
   \<and> tasks_count
       (run_task_ops world_remove
          [Add 1, Add 2, Add 3, Add 4, Remove 2, Remove 3, Remove 4, Remove 1]) = 0
   \<and> manager_fanout (run_task_ops world_weird [Add 1, Add 2, Add 3]) = Some 50
   \<and> tasks_count (run_task_ops world_weird [Add 1, Add 2, Add 3]) = 3"
  using manager_fanout_minimum [of world_weird new_manager 1 "[Add 1, Add 2, Add 3]" "[1, 2, 3]"]
  by (simp add: run_task_ops_def add_task_def remove_task_def new_manager_def Let_def
      effective_fanout_def with_fanout_sel world0_fanout world_remove_def
      world_weird_def tasks_count_def)

section \<open>Preparation and status updates\<close>

subsection \<open>The invariant of the recursion\<close>

lemma emit_sel [simp]:
  "actions (emit e w) = actions w"
  "calls (emit e w) = calls w @ [e]"
  "clock (emit e w) = clock w"
  by (simp_all add: emit_def)

lemma put_sel [simp]:
  "actions (put a x w) = (actions w)(a := x)"
  "calls (put a x w) = calls w"
  "clock (put a x w) = clock w"
  by (simp_all add: put_def)

lemma frame_parents: "frame a = frame b \<Longrightarrow> parents a = parents b"
proof -
  assume "frame a = frame b"
  then have "parents (frame a) = parents (frame b)" by simp
  then show ?thesis by (simp add: frame_def)
qed

lemma frame_upd [simp]:
  "frame (a\<lparr>status := s\<rparr>) = frame a"
  "frame (a\<lparr>start_time := t\<rparr>) = frame a"
  by (simp_all add: frame_def)

lemma evolves_refl: "evolves w w"
  unfolding evolves_def by simp

lemma evolves_same: "evolves w w' \<Longrightarrow> status (actions w x) \<noteq> NO_STATUS \<Longrightarrow> actions w' x = actions w x"
  unfolding evolves_def by blast

lemma evolves_frame: "evolves w w' \<Longrightarrow> frame (actions w' x) = frame (actions w x)"
  unfolding evolves_def by blast

lemma evolves_clock: "evolves w w' \<Longrightarrow> clock w' = clock w"
  unfolding evolves_def by blast

lemma evolves_calls:
  "evolves w w' \<Longrightarrow> \<exists>new. calls w' = calls w @ new \<and> list_all (allowed w w') new"
  unfolding evolves_def by blast

lemma evolvesI:
  "calls w' = calls w @ new \<Longrightarrow> list_all (allowed w w') new \<Longrightarrow>
   (\<And>x. status (actions w x) \<noteq> NO_STATUS \<Longrightarrow> actions w' x = actions w x) \<Longrightarrow>
   (\<And>x. frame (actions w' x) = frame (actions w x)) \<Longrightarrow>
   clock w' = clock w \<Longrightarrow> evolves w w'"
  unfolding evolves_def by blast

lemma evolves_parents: "evolves w w' \<Longrightarrow> parents (actions w' x) = parents (actions w x)"
  using evolves_frame [of w w' x] by (rule frame_parents)

lemma evolves_status:
  "evolves w w' \<Longrightarrow> status (actions w x) \<noteq> NO_STATUS \<Longrightarrow>
   status (actions w' x) = status (actions w x)"
  using evolves_same [of w w' x] by simp

lemma is_ready_mono:
  assumes e: "evolves w w'" and r: "is_ready w c"
  shows "is_ready w' c"
proof -
  have p: "parents (actions w' c) = parents (actions w c)" by (rule evolves_parents [OF e])
  have "\<forall>q \<in> set (parents (actions w c)).
          status (actions w' q) \<noteq> NO_STATUS \<and> status (actions w' q) \<noteq> WAITING_STATUS"
  proof
    fix q
    assume "q \<in> set (parents (actions w c))"
    then have s: "status (actions w q) \<noteq> NO_STATUS \<and> status (actions w q) \<noteq> WAITING_STATUS"
      using r by (simp add: is_ready_def list_all_iff)
    then have "status (actions w' q) = status (actions w q)"
      using evolves_status [OF e] by blast
    then show "status (actions w' q) \<noteq> NO_STATUS \<and> status (actions w' q) \<noteq> WAITING_STATUS"
      using s by simp
  qed
  then show ?thesis unfolding is_ready_def list_all_iff p by blast
qed

lemma allowed_mono: "evolves w' w'' \<Longrightarrow> allowed w w' e \<Longrightarrow> allowed w w'' e"
  using is_ready_mono [of w' w''] by (cases e) (auto simp add: allowed_def)

lemma allowed_back:
  assumes e: "evolves w w'" and a: "allowed w' w'' e"
  shows "allowed w w'' e"
proof -
  have k: "\<And>x. status (actions w' x) = NO_STATUS \<Longrightarrow> status (actions w x) = NO_STATUS"
    using evolves_status [OF e] by fastforce
  show ?thesis using a k by (cases e) (auto simp add: allowed_def)
qed

lemma evolves_trans:
  assumes a: "evolves w w'" and b: "evolves w' w''"
  shows "evolves w w''"
proof -
  from evolves_calls [OF a] obtain n1 where n1: "calls w' = calls w @ n1" "list_all (allowed w w') n1"
    by blast
  from evolves_calls [OF b] obtain n2 where n2: "calls w'' = calls w' @ n2" "list_all (allowed w' w'') n2"
    by blast
  have c: "calls w'' = calls w @ (n1 @ n2)" using n1(1) n2(1) by simp
  have l1: "list_all (allowed w w'') n1"
    using n1(2) allowed_mono [OF b] by (simp add: list_all_iff)
  have l2: "list_all (allowed w w'') n2"
    using n2(2) allowed_back [OF a] by (simp add: list_all_iff)
  have l: "list_all (allowed w w'') (n1 @ n2)" using l1 l2 by simp
  show ?thesis
  proof (rule evolvesI [OF c l])
    fix x
    assume s: "status (actions w x) \<noteq> NO_STATUS"
    have 1: "actions w' x = actions w x" by (rule evolves_same [OF a s])
    then have "status (actions w' x) \<noteq> NO_STATUS" using s by simp
    then have "actions w'' x = actions w' x" by (rule evolves_same [OF b])
    then show "actions w'' x = actions w x" using 1 by simp
  next
    fix x
    show "frame (actions w'' x) = frame (actions w x)"
      using evolves_frame [OF a, of x] evolves_frame [OF b, of x] by simp
  next
    show "clock w'' = clock w" using evolves_clock [OF a] evolves_clock [OF b] by simp
  qed
qed


lemma is_ready_emit [simp]: "is_ready (emit e w) c = is_ready w c"
  by (simp add: is_ready_def)

lemma allowed_emit [simp]: "allowed w (emit e w1) = allowed w w1"
proof
  fix e'
  show "allowed w (emit e w1) e' = allowed w w1 e'"
    by (cases e') (simp_all add: allowed_def)
qed

lemma is_ready_put_start [simp]:
  "is_ready (put a ((actions w a)\<lparr>start_time := t\<rparr>) w) c = is_ready w c"
  by (auto simp add: is_ready_def list_all_iff)

lemma allowed_put_start [simp]:
  "allowed w (put a ((actions w1 a)\<lparr>start_time := t\<rparr>) w1) = allowed w w1"
proof
  fix e'
  show "allowed w (put a ((actions w1 a)\<lparr>start_time := t\<rparr>) w1) e' = allowed w w1 e'"
    by (cases e') (simp_all add: allowed_def)
qed

lemma evolves_emit:
  assumes e: "evolves w w1" and a: "allowed w w1 x"
  shows "evolves w (emit x w1)"
proof -
  from evolves_calls [OF e] obtain n1 where n1: "calls w1 = calls w @ n1" "list_all (allowed w w1) n1"
    by blast
  have c: "calls (emit x w1) = calls w @ (n1 @ [x])" using n1(1) by simp
  have l: "list_all (allowed w (emit x w1)) (n1 @ [x])" using n1(2) a by simp
  show ?thesis
  proof (rule evolvesI [OF c l])
    fix y
    assume "status (actions w y) \<noteq> NO_STATUS"
    then show "actions (emit x w1) y = actions w y" using evolves_same [OF e] by simp
  next
    fix y
    show "frame (actions (emit x w1) y) = frame (actions w y)" using evolves_frame [OF e] by simp
  next
    show "clock (emit x w1) = clock w" using evolves_clock [OF e] by simp
  qed
qed

lemma evolves_put_start:
  assumes e: "evolves w w1" and a: "status (actions w a) = NO_STATUS"
  shows "evolves w (put a ((actions w1 a)\<lparr>start_time := t\<rparr>) w1)"
proof -
  from evolves_calls [OF e] obtain n1 where n1: "calls w1 = calls w @ n1" "list_all (allowed w w1) n1"
    by blast
  have c: "calls (put a ((actions w1 a)\<lparr>start_time := t\<rparr>) w1) = calls w @ n1"
    using n1(1) by simp
  have l: "list_all (allowed w (put a ((actions w1 a)\<lparr>start_time := t\<rparr>) w1)) n1"
    using n1(2) by simp
  show ?thesis
  proof (rule evolvesI [OF c l])
    fix y
    assume "status (actions w y) \<noteq> NO_STATUS"
    then show "actions (put a ((actions w1 a)\<lparr>start_time := t\<rparr>) w1) y = actions w y"
      using evolves_same [OF e, of y] a by auto
  next
    fix y
    show "frame (actions (put a ((actions w1 a)\<lparr>start_time := t\<rparr>) w1) y) = frame (actions w y)"
      using evolves_frame [OF e, of y] by auto
  next
    show "clock (put a ((actions w1 a)\<lparr>start_time := t\<rparr>) w1) = clock w"
      using evolves_clock [OF e] by simp
  qed
qed

lemma evolves_schedule:
  assumes e: "evolves w w1" and a: "status (actions w a) = NO_STATUS"
  shows "evolves w (schedule w1 a b)"
proof -
  define w2 where "w2 = (if start_time (actions w1 a) = None
                then put a ((actions w1 a)\<lparr>start_time := Some (clock w1)\<rparr>) w1 else w1)"
  have e2: "evolves w w2" unfolding w2_def using e evolves_put_start [OF e a] by simp
  have n: "\<And>ev. allowed w w2 (Notify_action a ev)" using a by (simp add: allowed_def)
  have p1: "allowed w (emit (Notify_action a EV_STARTED) w2) (Perform_action a)"
    using a by (simp add: allowed_def)
  have p2: "allowed w (emit (Notify_action a EV_DELAYED) w2) (Perform_delayed_action a)"
    using a by (simp add: allowed_def)
  have s1: "evolves w (emit (Perform_action a) (emit (Notify_action a EV_STARTED) w2))"
    by (rule evolves_emit [OF evolves_emit [OF e2 n] p1])
  have s2: "evolves w (emit (Perform_delayed_action a) (emit (Notify_action a EV_DELAYED) w2))"
    by (rule evolves_emit [OF evolves_emit [OF e2 n] p2])
  show ?thesis using s1 s2 unfolding schedule_def w2_def [symmetric] Let_def by simp
qed

lemma evolves_entered:
  assumes a: "status (actions w a) = NO_STATUS"
  shows "evolves w (entered w a s)"
proof -
  define w1 where "w1 = put a ((actions w a)\<lparr>status := s\<rparr>) w"
  have e1: "evolves w w1"
  proof (rule evolvesI [of _ _ "[]"])
    show "calls w1 = calls w @ []" by (simp add: w1_def)
    show "list_all (allowed w w1) []" by simp
    show "\<And>x. status (actions w x) \<noteq> NO_STATUS \<Longrightarrow> actions w1 x = actions w x"
      using a by (auto simp add: w1_def)
    show "\<And>x. frame (actions w1 x) = frame (actions w x)" by (simp add: w1_def)
    show "clock w1 = clock w" by (simp add: w1_def)
  qed
  have n: "\<And>ev w'. allowed w w' (Notify_action a ev)" using a by (simp add: allowed_def)
  have e2: "evolves w (emit (Notify_action a EV_STATUS_CHANGED) w1)"
    by (rule evolves_emit [OF e1 n])
  have e3: "evolves w (emit (Notify_action a EV_COMPLETE) (emit (Notify_action a EV_STATUS_CHANGED) w1))"
    by (rule evolves_emit [OF e2 n])
  show ?thesis using e2 e3 unfolding entered_def w1_def [symmetric] Let_def by simp
qed

lemma good_Return: "good w (Return w)"
  by (simp add: good_def evolves_refl)

lemma good_Raise: "(\<And>msg. e \<noteq> AssertionError msg) \<Longrightarrow> good w (Raise e w)"
  by (simp add: good_def evolves_refl)

lemma good_trans: "evolves w w1 \<Longrightarrow> good w1 out \<Longrightarrow> good w out"
  using evolves_trans [of w w1 "final out"] by (simp add: good_def)

lemma good_evolves: "good w out \<Longrightarrow> evolves w (final out)"
  by (simp add: good_def)


lemma prepare_loop_good:
  assumes P: "\<And>w a. good w (prepare d w a)"
  shows "good w (prepare_loop d w deps)"
proof (induction deps arbitrary: w)
  case Nil
  show ?case by (simp add: good_Return)
next
  case (Cons dep deps)
  show ?case
  proof (cases "prepare d w dep")
    case (Return w1)
    have "evolves w w1" using P [of w dep] Return by (simp add: good_def)
    then show ?thesis using Return Cons.IH [of w1] by (simp add: good_trans)
  next
    case (Raise e w1)
    then show ?thesis using P [of w dep] by simp
  qed
qed

lemma children_loop_good:
  assumes P: "\<And>w a. good w (prepare d w a)"
  shows "good w (children_loop d w a deps)"
proof (induction deps arbitrary: w)
  case Nil
  show ?case by (simp add: good_Return)
next
  case (Cons dep deps)
  show ?case
  proof (cases "is_ready w dep")
    case False
    then show ?thesis using Cons.IH [of w] by simp
  next
    case True
    define w0 where "w0 = emit (Notify_pair a dep EV_TRIGGER_DEP) w"
    have "allowed w w (Notify_pair a dep EV_TRIGGER_DEP)" using True by (simp add: allowed_def)
    then have e0: "evolves w w0" unfolding w0_def by (rule evolves_emit [OF evolves_refl])
    show ?thesis
    proof (cases "prepare d w0 dep")
      case (Return w1)
      have "evolves w0 w1" using P [of w0 dep] Return by (simp add: good_def)
      then have "good w0 (children_loop d w1 a deps)" using Cons.IH [of w1] by (rule good_trans)
      then have "good w (children_loop d w1 a deps)" using e0 by (rule good_trans [rotated])
      then show ?thesis using True Return by (simp add: w0_def)
    next
      case (Raise e w1)
      have "good w0 (Raise e w1)" using P [of w0 dep] Raise by simp
      then have "good w (Raise e w1)" using e0 by (rule good_trans [rotated])
      then show ?thesis using True Raise by (simp add: w0_def)
    qed
  qed
qed

lemma update_status_good:
  assumes S: "\<And>w a deps. good w (children_loop d w a deps)"
    and v: "s \<in> set [NO_STATUS, WAITING_STATUS, DONE, TOO_MANY_ERRORS, TIMED_OUT]"
  shows "good (entered w a s) (update_status (Suc d) w a s)"
proof (cases "s \<in> set [NO_STATUS, WAITING_STATUS]")
  case True
  then have "update_status (Suc d) w a s = Return (entered w a s)"
    using v by (simp add: entered_def Let_def)
  then show ?thesis by (simp add: good_Return)
next
  case False
  define w3 where "w3 = entered w a s"
  have w3: "w3 = emit (Notify_action a EV_COMPLETE)
      (emit (Notify_action a EV_STATUS_CHANGED) (put a ((actions w a)\<lparr>status := s\<rparr>) w))"
    using False by (simp add: w3_def entered_def Let_def)
  have u: "update_status (Suc d) w a s =
      (if children (actions w3 a) \<noteq> [] then children_loop d w3 a (children (actions w3 a))
       else (case service (actions w3 a) of
               None \<Rightarrow> Raise (AttributeError ''update_status'') w3
             | Some sv \<Rightarrow> Return (emit (Service_update_status sv (status (actions w3 a))) w3)))"
    using False v unfolding w3 by (simp add: Let_def)
  show ?thesis
  proof (cases "children (actions w3 a) \<noteq> []")
    case True
    then show ?thesis using u S [of w3 a] by (simp add: w3_def)
  next
    case nc: False
    show ?thesis
    proof (cases "service (actions w3 a)")
      case None
      then show ?thesis using u nc good_Raise [of "AttributeError ''update_status''" w3]
        by (simp add: w3_def)
    next
      case (Some sv)
      have "allowed w3 w3 (Service_update_status sv (status (actions w3 a)))"
        by (simp add: allowed_def)
      then have "evolves w3 (emit (Service_update_status sv (status (actions w3 a))) w3)"
        by (rule evolves_emit [OF evolves_refl])
      then show ?thesis using u nc Some by (simp add: good_def w3_def)
    qed
  qed
qed

lemma update_status_zero_good: "good w (update_status 0 w a s)"
  by (simp add: good_Raise)

lemma update_status_good_from:
  assumes R: "\<And>w a s. s \<in> set [NO_STATUS, WAITING_STATUS, DONE, TOO_MANY_ERRORS, TIMED_OUT]
                \<Longrightarrow> good (if d = 0 then w else entered w a s) (update_status d w a s)"
    and v: "s \<in> set [NO_STATUS, WAITING_STATUS, DONE, TOO_MANY_ERRORS, TIMED_OUT]"
    and n: "status (actions w a) = NO_STATUS"
  shows "good w (update_status d w a s)"
proof (cases "d = 0")
  case True
  then show ?thesis using R [OF v, of w a] by simp
next
  case False
  then have "good (entered w a s) (update_status d w a s)" using R [OF v, of w a] by simp
  then show ?thesis using evolves_entered [OF n] by (rule good_trans [rotated])
qed

lemma prepare_good:
  assumes R: "\<And>w a s. s \<in> set [NO_STATUS, WAITING_STATUS, DONE, TOO_MANY_ERRORS, TIMED_OUT]
                \<Longrightarrow> good (if d = 0 then w else entered w a s) (update_status d w a s)"
    and Q: "\<And>w deps. good w (prepare_loop d w deps)"
  shows "good w (prepare (Suc d) w a)"
proof (cases "status (actions w a) = NO_STATUS \<and> eval_deps_status w a \<noteq> WAITING_STATUS")
  case False
  then have "prepare (Suc d) w a = Return w" by (auto simp add: Let_def)
  then show ?thesis by (simp add: good_Return)
next
  case True
  then have n: "status (actions w a) = NO_STATUS" by simp
  show ?thesis
  proof (cases "eval_deps_status w a = ERROR \<or> parents (actions w a) = []")
    case sched: True
    have g: "good w (update_status d w a WAITING_STATUS)"
      by (rule update_status_good_from [OF R _ n]) simp_all
    have p: "prepare (Suc d) w a =
        (case update_status d w a WAITING_STATUS of
           Return w1 \<Rightarrow> Return (schedule w1 a True)
         | Raise e w1 \<Rightarrow> Raise e w1)"
      using True sched by (simp add: Let_def)
    show ?thesis
    proof (cases "update_status d w a WAITING_STATUS")
      case (Return w1)
      then have "evolves w w1" using g by (simp add: good_def)
      then have "evolves w (schedule w1 a True)" using n by (rule evolves_schedule)
      then show ?thesis using p Return by (simp add: good_def)
    next
      case (Raise e w1)
      then show ?thesis using p g by simp
    qed
  next
    case nosched: False
    show ?thesis
    proof (cases "eval_deps_status w a = DONE")
      case True
      have g: "good w (update_status d w a DONE)"
        by (rule update_status_good_from [OF R _ n]) simp_all
      have "prepare (Suc d) w a = update_status d w a DONE"
        using n \<open>status (actions w a) = NO_STATUS \<and> eval_deps_status w a \<noteq> WAITING_STATUS\<close>
          nosched True by (simp add: Let_def)
      then show ?thesis using g by simp
    next
      case False
      have "prepare (Suc d) w a = prepare_loop d w (search_deps w a [NO_STATUS])"
        using \<open>status (actions w a) = NO_STATUS \<and> eval_deps_status w a \<noteq> WAITING_STATUS\<close>
          nosched False by (simp add: Let_def)
      then show ?thesis using Q by simp
    qed
  qed
qed

lemma engine_good:
  "(\<forall>w a. good w (prepare d w a))
   \<and> (\<forall>w deps. good w (prepare_loop d w deps))
   \<and> (\<forall>w a s. s \<in> set [NO_STATUS, WAITING_STATUS, DONE, TOO_MANY_ERRORS, TIMED_OUT]
          \<longrightarrow> good (if d = 0 then w else entered w a s) (update_status d w a s))
   \<and> (\<forall>w a deps. good w (children_loop d w a deps))"
proof (induction d)
  case 0
  have P: "\<And>w a. good w (prepare 0 w a)" by (simp add: good_Raise)
  show ?case using P prepare_loop_good [OF P] children_loop_good [OF P]
    by (simp add: good_Raise)
next
  case (Suc d)
  have P: "\<And>w a. good w (prepare (Suc d) w a)"
    using Suc by (intro prepare_good) blast+
  have R: "\<And>w a s. s \<in> set [NO_STATUS, WAITING_STATUS, DONE, TOO_MANY_ERRORS, TIMED_OUT]
            \<Longrightarrow> good (entered w a s) (update_status (Suc d) w a s)"
    using Suc by (intro update_status_good) blast+
  show ?case using P R prepare_loop_good [OF P] children_loop_good [OF P] by simp
qed

subsection \<open>Consequences for the methods of an action\<close>



lemma prepare_is_good: "good w (prepare d w a)"
  using engine_good [of d] by blast

lemma update_status_is_good:
  "s \<in> set [NO_STATUS, WAITING_STATUS, DONE, TOO_MANY_ERRORS, TIMED_OUT] \<Longrightarrow>
   good (if d = 0 then w else entered w a s) (update_status d w a s)"
  using engine_good [of d] by blast

lemma prepare_evolves: "evolves w (final (prepare d w a))"
  using prepare_is_good [of w d a] unfolding good_def by blast

lemma prepare_no_assertion: "raised (prepare d w a) \<noteq> Some (AssertionError msg)"
  using prepare_is_good [of w d a] unfolding good_def by blast

lemma update_status_evolves:
  assumes "s \<in> set [NO_STATUS, WAITING_STATUS, DONE, TOO_MANY_ERRORS, TIMED_OUT]"
  shows "evolves (entered w a s) (final (update_status (Suc d) w a s))"
proof -
  have "good (entered w a s) (update_status (Suc d) w a s)"
    using update_status_is_good [OF assms, of "Suc d" w a] by (simp only: nat.simps if_False)
  then show ?thesis unfolding good_def by blast
qed

lemma update_status_no_assertion:
  "s \<in> set [NO_STATUS, WAITING_STATUS, DONE, TOO_MANY_ERRORS, TIMED_OUT] \<Longrightarrow>
   raised (update_status d w a s) \<noteq> Some (AssertionError msg)"
  using update_status_is_good [of s d w a] unfolding good_def by blast

lemma entered_status: "status (actions (entered w a s) a) = s"
  by (simp add: entered_def Let_def)

lemma entered_other: "x \<noteq> a \<Longrightarrow> actions (entered w a s) x = actions w x"
  by (simp add: entered_def Let_def)

lemma entered_calls:
  "calls (entered w a s) =
     calls w @ (if s \<notin> set [NO_STATUS, WAITING_STATUS]
                then [Notify_action a EV_STATUS_CHANGED, Notify_action a EV_COMPLETE]
                else [Notify_action a EV_STATUS_CHANGED])"
  by (simp add: entered_def Let_def)

lemma update_status_final_status:
  assumes v: "s \<in> set [NO_STATUS, WAITING_STATUS, DONE, TOO_MANY_ERRORS, TIMED_OUT]"
  shows "status (actions (final (update_status (Suc d) w a s)) a) = s"
proof (cases "s = NO_STATUS")
  case True
  then show ?thesis by (simp add: Let_def)
next
  case False
  then have "status (actions (entered w a s) a) \<noteq> NO_STATUS" by (simp add: entered_status)
  then have "status (actions (final (update_status (Suc d) w a s)) a)
      = status (actions (entered w a s) a)"
    by (rule evolves_status [OF update_status_evolves [OF v]])
  then show ?thesis by (simp add: entered_status)
qed

text \<open>The calls that come after those of \<open>entered\<close> are not about the action itself.\<close>

lemma update_status_rest:
  assumes v: "s \<in> set [NO_STATUS, WAITING_STATUS, DONE, TOO_MANY_ERRORS, TIMED_OUT]"
    and t: "s \<noteq> NO_STATUS"
  shows "\<exists>rest. calls (final (update_status (Suc d) w a s)) = calls (entered w a s) @ rest
          \<and> (\<forall>ev. Notify_action a ev \<notin> set rest)
          \<and> Perform_action a \<notin> set rest \<and> Perform_delayed_action a \<notin> set rest
          \<and> (\<forall>x c ev. Notify_pair x c ev \<in> set rest \<longrightarrow>
                ev = EV_TRIGGER_DEP \<and> is_ready (final (update_status (Suc d) w a s)) c)"
proof -
  let ?w' = "final (update_status (Suc d) w a s)"
  from evolves_calls [OF update_status_evolves [OF v, of w a d]]
  obtain rest where r: "calls ?w' = calls (entered w a s) @ rest"
    "list_all (allowed (entered w a s) ?w') rest" by blast
  have al: "\<And>e. e \<in> set rest \<Longrightarrow> allowed (entered w a s) ?w' e"
    using r(2) by (simp add: list_all_iff)
  have 1: "\<And>ev. Notify_action a ev \<notin> set rest"
    using al t by (fastforce simp add: allowed_def entered_status)
  have 2: "Perform_action a \<notin> set rest"
    using al t by (fastforce simp add: allowed_def entered_status)
  have 3: "Perform_delayed_action a \<notin> set rest"
    using al t by (fastforce simp add: allowed_def entered_status)
  have 4: "\<And>x c ev. Notify_pair x c ev \<in> set rest \<Longrightarrow> ev = EV_TRIGGER_DEP \<and> is_ready ?w' c"
    using al by (fastforce simp add: allowed_def)
  show ?thesis using r(1) 1 2 3 4 by blast
qed

lemma node_sel:
  "status (node ps cs st) = st"
  "parents (node ps cs st) = ps"
  "children (node ps cs st) = cs"
  "service (node ps cs st) = Some 7"
  "delay (node ps cs st) = 0"
  "start_time (node ps cs st) = None"
  by (simp_all add: node_def Action_init_sel)

lemma world_dag_sel:
  "actions (world_dag st) 1 = node [] [2] st"
  "actions (world_dag st) 2 = node [1] [] NO_STATUS"
  "calls (world_dag st) = []"
  "clock (world_dag st) = 5"
  by (simp_all add: world_dag_def)

text \<open>
  Claim C5, amended. \<^verbatim>\<open>update_status\<close> accepts \<open>NO_STATUS\<close>, \<open>WAITING_STATUS\<close>,
  \<open>DONE\<close>, \<open>TIMED_OUT\<close> and \<open>TOO_MANY_ERRORS\<close>: with one of them (and a frame left on
  the stack) the assertion passes, no call made from it fails an assertion, and the
  status of the action is the given one when the call ends. The call returns for
  \<open>NO_STATUS\<close> and \<open>WAITING_STATUS\<close>, and for the three terminal statuses on an action
  with no children and a service. \<open>ERROR\<close>, the one status outside the five, fails the
  assertion and changes nothing.
\<close>

theorem update_status_accepts:
  "(s \<in> {NO_STATUS, WAITING_STATUS, DONE, TIMED_OUT, TOO_MANY_ERRORS} \<longrightarrow>
      status (actions (final (update_status (Suc d) w a s)) a) = s
      \<and> (\<forall>msg. raised (update_status (Suc d) w a s) \<noteq> Some (AssertionError msg)))
   \<and> (s \<in> {NO_STATUS, WAITING_STATUS} \<longrightarrow> raised (update_status (Suc d) w a s) = None)
   \<and> (s \<in> {DONE, TIMED_OUT, TOO_MANY_ERRORS} \<and> children (actions w a) = []
        \<and> service (actions w a) \<noteq> None \<longrightarrow> raised (update_status (Suc d) w a s) = None)
   \<and> (s = ERROR \<longrightarrow>
        update_status (Suc d) w a s = Raise (AssertionError ''Bad action status'') w)"
proof (intro conjI impI)
  assume "s \<in> {NO_STATUS, WAITING_STATUS, DONE, TIMED_OUT, TOO_MANY_ERRORS}"
  then have v: "s \<in> set [NO_STATUS, WAITING_STATUS, DONE, TOO_MANY_ERRORS, TIMED_OUT]" by auto
  show "status (actions (final (update_status (Suc d) w a s)) a) = s"
    by (rule update_status_final_status [OF v])
  show "\<forall>msg. raised (update_status (Suc d) w a s) \<noteq> Some (AssertionError msg)"
    using update_status_no_assertion [OF v] by blast
next
  assume "s \<in> {NO_STATUS, WAITING_STATUS}"
  then show "raised (update_status (Suc d) w a s) = None" by (auto simp add: Let_def)
next
  assume "s \<in> {DONE, TIMED_OUT, TOO_MANY_ERRORS} \<and> children (actions w a) = []
        \<and> service (actions w a) \<noteq> None"
  then show "raised (update_status (Suc d) w a s) = None" by (auto simp add: Let_def)
next
  assume "s = ERROR"
  then show "update_status (Suc d) w a s = Raise (AssertionError ''Bad action status'') w"
    by simp
qed

text \<open>
  The theorem on a leaf of a small graph.
\<close>

theorem update_status_accepts_witness:
  "status (actions (final (update_status (Suc 0) (world_dag NO_STATUS) 2 DONE)) 2) = DONE
   \<and> raised (update_status (Suc 0) (world_dag NO_STATUS) 2 DONE) = None
   \<and> status (actions (final (update_status (Suc 0) (world_dag NO_STATUS) 2 WAITING_STATUS)) 2)
       = WAITING_STATUS
   \<and> raised (update_status (Suc 0) (world_dag NO_STATUS) 2 WAITING_STATUS) = None"
  using update_status_accepts [of DONE 0 "world_dag NO_STATUS" 2]
    update_status_accepts [of WAITING_STATUS 0 "world_dag NO_STATUS" 2]
  by (simp add: world_dag_sel node_sel)

text \<open>
  Claim C5 as stated fails for \<open>ERROR\<close>, which is in the declared set of statuses:
  the assertion of \<^verbatim>\<open>update_status\<close> refuses it and the status stays \<open>NO_STATUS\<close>.
\<close>

theorem update_status_ERROR_counterexample:
  "update_status (Suc 0) (world_dag NO_STATUS) 2 ERROR =
     Raise (AssertionError ''Bad action status'') (world_dag NO_STATUS)
   \<and> status (actions (final (update_status (Suc 0) (world_dag NO_STATUS) 2 ERROR)) 2) = NO_STATUS"
  by (simp add: world_dag_sel node_sel)

lemma update_status_terminal_eq:
  assumes v: "s \<in> set [DONE, TOO_MANY_ERRORS, TIMED_OUT]"
  shows "update_status (Suc d) w a s =
     (if children (actions w a) \<noteq> [] then
        children_loop d (entered w a s) a (children (actions w a))
      else
        (case service (actions w a) of
           None \<Rightarrow> Raise (AttributeError ''update_status'') (entered w a s)
         | Some sv \<Rightarrow> Return (emit (Service_update_status sv s) (entered w a s))))"
  using v by (auto simp add: entered_def Let_def split: option.splits)

lemma update_status_waiting_eq:
  assumes v: "s \<in> set [NO_STATUS, WAITING_STATUS]"
  shows "update_status (Suc d) w a s = Return (entered w a s)"
  using v by (auto simp add: entered_def Let_def)

text \<open>
  Claim C6. In a call of \<^verbatim>\<open>update_status\<close> with an accepted status, the first call
  recorded is the notification \<open>EV_STATUS_CHANGED\<close> of the action; for \<open>NO_STATUS\<close> and
  \<open>WAITING_STATUS\<close> it is the only one. For a terminal status the second is the
  notification \<open>EV_COMPLETE\<close> of the action, and whatever follows holds no other
  notification of the action, and notifications of pairs only as \<open>EV_TRIGGER_DEP\<close>
  for a child that is ready. A refused status records nothing. The loop over the
  children skips a child that is not ready (no notification, no \<^verbatim>\<open>prepare\<close>) and, for
  a child that is ready, notifies \<open>EV_TRIGGER_DEP\<close> and then prepares it. With no
  children, the status goes to \<^verbatim>\<open>update_status\<close> of the service instead.
\<close>

theorem update_status_order:
  "(s \<in> {NO_STATUS, WAITING_STATUS} \<longrightarrow>
      update_status (Suc d) w a s = Return (entered w a s)
      \<and> calls (entered w a s) = calls w @ [Notify_action a EV_STATUS_CHANGED])
   \<and> (s \<in> {DONE, TIMED_OUT, TOO_MANY_ERRORS} \<longrightarrow>
        (\<exists>rest. calls (final (update_status (Suc d) w a s)) =
                  calls w @ [Notify_action a EV_STATUS_CHANGED, Notify_action a EV_COMPLETE] @ rest
           \<and> (\<forall>ev. Notify_action a ev \<notin> set rest)
           \<and> (\<forall>x c ev. Notify_pair x c ev \<in> set rest \<longrightarrow>
                  ev = EV_TRIGGER_DEP \<and> is_ready (final (update_status (Suc d) w a s)) c)))
   \<and> (s = ERROR \<longrightarrow> calls (final (update_status (Suc d) w a s)) = calls w)
   \<and> (\<not> is_ready w c \<longrightarrow> children_loop d w a (c # cs) = children_loop d w a cs)
   \<and> (is_ready w c \<longrightarrow>
        children_loop d w a (c # cs) =
          (case prepare d (emit (Notify_pair a c EV_TRIGGER_DEP) w) c of
             Return w1 \<Rightarrow> children_loop d w1 a cs
           | Raise e w1 \<Rightarrow> Raise e w1))
   \<and> (s \<in> {DONE, TIMED_OUT, TOO_MANY_ERRORS} \<and> children (actions w a) \<noteq> [] \<longrightarrow>
        update_status (Suc d) w a s =
          children_loop d (entered w a s) a (children (actions w a)))
   \<and> (s \<in> {DONE, TIMED_OUT, TOO_MANY_ERRORS} \<and> children (actions w a) = []
        \<and> service (actions w a) = Some sv \<longrightarrow>
        update_status (Suc d) w a s = Return (emit (Service_update_status sv s) (entered w a s)))"
proof (intro conjI impI)
  assume "s \<in> {NO_STATUS, WAITING_STATUS}"
  then have v: "s \<in> set [NO_STATUS, WAITING_STATUS]" by simp
  show "update_status (Suc d) w a s = Return (entered w a s)"
    by (rule update_status_waiting_eq [OF v])
  show "calls (entered w a s) = calls w @ [Notify_action a EV_STATUS_CHANGED]"
    using v by (simp add: entered_calls)
next
  assume t: "s \<in> {DONE, TIMED_OUT, TOO_MANY_ERRORS}"
  then have v: "s \<in> set [NO_STATUS, WAITING_STATUS, DONE, TOO_MANY_ERRORS, TIMED_OUT]"
    and n: "s \<noteq> NO_STATUS" by auto
  have c: "calls (entered w a s) =
      calls w @ [Notify_action a EV_STATUS_CHANGED, Notify_action a EV_COMPLETE]"
    using t by (auto simp add: entered_calls)
  from update_status_rest [OF v n, of d w a] obtain rest where
    r: "calls (final (update_status (Suc d) w a s)) = calls (entered w a s) @ rest"
      "\<forall>ev. Notify_action a ev \<notin> set rest"
      "\<forall>x c ev. Notify_pair x c ev \<in> set rest \<longrightarrow>
          ev = EV_TRIGGER_DEP \<and> is_ready (final (update_status (Suc d) w a s)) c"
    by blast
  have "calls (final (update_status (Suc d) w a s)) =
      calls w @ [Notify_action a EV_STATUS_CHANGED, Notify_action a EV_COMPLETE] @ rest"
    using r(1) c by simp
  then show "\<exists>rest. calls (final (update_status (Suc d) w a s)) =
                  calls w @ [Notify_action a EV_STATUS_CHANGED, Notify_action a EV_COMPLETE] @ rest
           \<and> (\<forall>ev. Notify_action a ev \<notin> set rest)
           \<and> (\<forall>x c ev. Notify_pair x c ev \<in> set rest \<longrightarrow>
                  ev = EV_TRIGGER_DEP \<and> is_ready (final (update_status (Suc d) w a s)) c)"
    using r(2) r(3) by blast
next
  assume "s = ERROR"
  then show "calls (final (update_status (Suc d) w a s)) = calls w" by simp
next
  assume "\<not> is_ready w c"
  then show "children_loop d w a (c # cs) = children_loop d w a cs" by simp
next
  assume "is_ready w c"
  then show "children_loop d w a (c # cs) =
          (case prepare d (emit (Notify_pair a c EV_TRIGGER_DEP) w) c of
             Return w1 \<Rightarrow> children_loop d w1 a cs
           | Raise e w1 \<Rightarrow> Raise e w1)" by simp
next
  assume "s \<in> {DONE, TIMED_OUT, TOO_MANY_ERRORS} \<and> children (actions w a) \<noteq> []"
  then show "update_status (Suc d) w a s =
          children_loop d (entered w a s) a (children (actions w a))"
    using update_status_terminal_eq [of s d w a] by auto
next
  assume "s \<in> {DONE, TIMED_OUT, TOO_MANY_ERRORS} \<and> children (actions w a) = []
        \<and> service (actions w a) = Some sv"
  then show "update_status (Suc d) w a s =
      Return (emit (Service_update_status sv s) (entered w a s))"
    using update_status_terminal_eq [of s d w a] by auto
qed

text \<open>
  A parent completes and triggers its child; a leaf times out; a status that is not
  terminal.
\<close>

theorem update_status_order_witness:
  "calls (final (update_status (Suc (Suc (Suc 0))) (world_dag WAITING_STATUS) 1 DONE)) =
     [Notify_action 1 EV_STATUS_CHANGED, Notify_action 1 EV_COMPLETE,
      Notify_pair 1 2 EV_TRIGGER_DEP,
      Notify_action 2 EV_STATUS_CHANGED, Notify_action 2 EV_COMPLETE,
      Service_update_status 7 DONE]
   \<and> calls (final (update_status (Suc 0) (world_dag NO_STATUS) 2 TIMED_OUT)) =
     [Notify_action 2 EV_STATUS_CHANGED, Notify_action 2 EV_COMPLETE,
      Service_update_status 7 TIMED_OUT]
   \<and> calls (final (update_status (Suc 0) (world_dag NO_STATUS) 1 WAITING_STATUS)) =
     [Notify_action 1 EV_STATUS_CHANGED]"
  using update_status_order [of DONE "Suc (Suc 0)" "world_dag WAITING_STATUS" 1 2 "[]" 7]
     update_status_order [of TIMED_OUT 0 "world_dag NO_STATUS" 2 2 "[]" 7]
     update_status_order [of WAITING_STATUS 0 "world_dag NO_STATUS" 1 2 "[]" 7]
  by (simp add: world_dag_def node_sel entered_def Let_def is_ready_def eval_deps_status_def
      search_deps_def)

text \<open>
  Claim C1. \<^verbatim>\<open>prepare\<close> does nothing when the status of the action is not
  \<open>NO_STATUS\<close> or the status of its dependencies is \<open>WAITING_STATUS\<close>. Otherwise, when
  the status of the dependencies is \<open>ERROR\<close> or the action has no parents, it sets the
  action to \<open>WAITING_STATUS\<close> and schedules it; else, when the status of the
  dependencies is \<open>DONE\<close>, it is \<^verbatim>\<open>update_status(DONE)\<close>: the action ends \<open>DONE\<close>
  and none of the calls recorded dispatches it; else it is the loop that calls
  \<^verbatim>\<open>prepare\<close> on each parent whose status is \<open>NO_STATUS\<close>, in order.
\<close>

theorem prepare_cases:
  "(status (actions w a) \<noteq> NO_STATUS \<or> eval_deps_status w a = WAITING_STATUS \<longrightarrow>
      prepare (Suc d) w a = Return w)
   \<and> (status (actions w a) = NO_STATUS \<and> eval_deps_status w a \<noteq> WAITING_STATUS
        \<and> (eval_deps_status w a = ERROR \<or> parents (actions w a) = []) \<longrightarrow>
        prepare (Suc (Suc d)) w a = Return (schedule (entered w a WAITING_STATUS) a True)
        \<and> status (actions (schedule (entered w a WAITING_STATUS) a True) a) = WAITING_STATUS
        \<and> calls (schedule (entered w a WAITING_STATUS) a True) =
            calls w @ [Notify_action a EV_STATUS_CHANGED] @
              (if delay (actions w a) > 0
               then [Notify_action a EV_DELAYED, Perform_delayed_action a]
               else [Notify_action a EV_STARTED, Perform_action a]))
   \<and> (status (actions w a) = NO_STATUS \<and> eval_deps_status w a = DONE
        \<and> parents (actions w a) \<noteq> [] \<longrightarrow>
        prepare (Suc (Suc d)) w a = update_status (Suc d) w a DONE
        \<and> status (actions (final (prepare (Suc (Suc d)) w a)) a) = DONE
        \<and> (\<exists>rest. calls (final (prepare (Suc (Suc d)) w a)) =
                  calls w @ [Notify_action a EV_STATUS_CHANGED, Notify_action a EV_COMPLETE] @ rest
              \<and> Perform_action a \<notin> set rest \<and> Perform_delayed_action a \<notin> set rest
              \<and> (\<forall>ev. Notify_action a ev \<notin> set rest)))
   \<and> (status (actions w a) = NO_STATUS
        \<and> eval_deps_status w a \<notin> {WAITING_STATUS, ERROR, DONE}
        \<and> parents (actions w a) \<noteq> [] \<longrightarrow>
        prepare (Suc d) w a =
          prepare_loop d w
            (filter (\<lambda>p. status (actions w p) = NO_STATUS) (parents (actions w a))))
   \<and> prepare_loop d w [] = Return w
   \<and> prepare_loop d w (p # ps) =
        (case prepare d w p of
           Return w1 \<Rightarrow> prepare_loop d w1 ps
         | Raise e w1 \<Rightarrow> Raise e w1)"
proof (intro conjI impI)
  assume "status (actions w a) \<noteq> NO_STATUS \<or> eval_deps_status w a = WAITING_STATUS"
  then show "prepare (Suc d) w a = Return w" by (auto simp add: Let_def)
next
  assume h: "status (actions w a) = NO_STATUS \<and> eval_deps_status w a \<noteq> WAITING_STATUS
        \<and> (eval_deps_status w a = ERROR \<or> parents (actions w a) = [])"
  have u: "update_status (Suc d) w a WAITING_STATUS = Return (entered w a WAITING_STATUS)"
    by (rule update_status_waiting_eq) simp
  have "prepare (Suc (Suc d)) w a =
      (case update_status (Suc d) w a WAITING_STATUS of
         Return w1 \<Rightarrow> Return (schedule w1 a True)
       | Raise e w1 \<Rightarrow> Raise e w1)"
    using h by (simp add: Let_def del: update_status.simps)
  then show "prepare (Suc (Suc d)) w a = Return (schedule (entered w a WAITING_STATUS) a True)"
    using u by simp
  show "status (actions (schedule (entered w a WAITING_STATUS) a True) a) = WAITING_STATUS"
    by (simp add: schedule_def entered_def Let_def)
  show "calls (schedule (entered w a WAITING_STATUS) a True) =
            calls w @ [Notify_action a EV_STATUS_CHANGED] @
              (if delay (actions w a) > 0
               then [Notify_action a EV_DELAYED, Perform_delayed_action a]
               else [Notify_action a EV_STARTED, Perform_action a])"
    by (simp add: schedule_def entered_def Let_def)
next
  assume h: "status (actions w a) = NO_STATUS \<and> eval_deps_status w a = DONE
        \<and> parents (actions w a) \<noteq> []"
  have v: "DONE \<in> set [NO_STATUS, WAITING_STATUS, DONE, TOO_MANY_ERRORS, TIMED_OUT]" by simp
  show p: "prepare (Suc (Suc d)) w a = update_status (Suc d) w a DONE"
    using h by (simp add: Let_def del: update_status.simps)
  show "status (actions (final (prepare (Suc (Suc d)) w a)) a) = DONE"
    unfolding p by (rule update_status_final_status [OF v])
  from update_status_rest [OF v, of d w a] obtain rest where
    r: "calls (final (update_status (Suc d) w a DONE)) = calls (entered w a DONE) @ rest"
      "\<forall>ev. Notify_action a ev \<notin> set rest"
      "Perform_action a \<notin> set rest" "Perform_delayed_action a \<notin> set rest"
    by auto
  have "calls (final (update_status (Suc d) w a DONE)) =
      calls w @ [Notify_action a EV_STATUS_CHANGED, Notify_action a EV_COMPLETE] @ rest"
    using r(1) by (simp add: entered_calls)
  then show "\<exists>rest. calls (final (prepare (Suc (Suc d)) w a)) =
                  calls w @ [Notify_action a EV_STATUS_CHANGED, Notify_action a EV_COMPLETE] @ rest
              \<and> Perform_action a \<notin> set rest \<and> Perform_delayed_action a \<notin> set rest
              \<and> (\<forall>ev. Notify_action a ev \<notin> set rest)"
    unfolding p using r(2) r(3) r(4) by blast
next
  assume "status (actions w a) = NO_STATUS
        \<and> eval_deps_status w a \<notin> {WAITING_STATUS, ERROR, DONE}
        \<and> parents (actions w a) \<noteq> []"
  then show "prepare (Suc d) w a =
          prepare_loop d w
            (filter (\<lambda>p. status (actions w p) = NO_STATUS) (parents (actions w a)))"
    by (simp add: Let_def search_deps_def)
next
  show "prepare_loop d w [] = Return w" by simp
  show "prepare_loop d w (p # ps) =
        (case prepare d w p of
           Return w1 \<Rightarrow> prepare_loop d w1 ps
         | Raise e w1 \<Rightarrow> Raise e w1)" by simp
qed

text \<open>
  The four cases on a graph of a parent and a child.
\<close>

theorem prepare_cases_witness:
  "prepare (Suc 0) (world_dag WAITING_STATUS) 2 = Return (world_dag WAITING_STATUS)
   \<and> calls (final (prepare (Suc (Suc 0)) (world_dag NO_STATUS) 1)) =
       [Notify_action 1 EV_STATUS_CHANGED, Notify_action 1 EV_STARTED, Perform_action 1]
   \<and> status (actions (final (prepare (Suc (Suc 0)) (world_dag NO_STATUS) 1)) 1) = WAITING_STATUS
   \<and> calls (final (prepare (Suc (Suc 0)) (world_dag DONE) 2)) =
       [Notify_action 2 EV_STATUS_CHANGED, Notify_action 2 EV_COMPLETE,
        Service_update_status 7 DONE]
   \<and> status (actions (final (prepare (Suc (Suc 0)) (world_dag DONE) 2)) 2) = DONE
   \<and> calls (final (prepare (Suc (Suc (Suc 0))) (world_dag NO_STATUS) 2)) =
       [Notify_action 1 EV_STATUS_CHANGED, Notify_action 1 EV_STARTED, Perform_action 1]
   \<and> status (actions (final (prepare (Suc (Suc (Suc 0))) (world_dag NO_STATUS) 2)) 2) = NO_STATUS"
  using prepare_cases [of "world_dag WAITING_STATUS" 2 0 2 "[]"]
    prepare_cases [of "world_dag NO_STATUS" 1 0 2 "[]"]
    prepare_cases [of "world_dag DONE" 2 0 2 "[]"]
    prepare_cases [of "world_dag NO_STATUS" 2 "Suc (Suc 0)" 2 "[]"]
  by (simp add: world_dag_def node_sel entered_def Let_def is_ready_def eval_deps_status_def
      search_deps_def schedule_def Action_init_sel)

lemma ev_close_eq:
  "ev_close d w a wk =
     (let w3 = closed w a wk;
          err = has_too_many_errors (actions w3 a);
          timed_out = has_timed_out (actions w3 a)
      in if (err \<or> timed_out) \<and> get_retry (actions w3 a) > 0 then
           (case set_retry (actions w3 a) (get_retry (actions w3 a) - 1) of
              Return a1 \<Rightarrow> Return (schedule (put a a1 w3) a True)
            | Raise e a1 \<Rightarrow> Raise e w3)
         else if err then update_status d w3 a TOO_MANY_ERRORS
         else if timed_out then update_status d w3 a TIMED_OUT
         else update_status d w3 a DONE)"
  unfolding ev_close_def closed_def Let_def by (rule refl)

lemma closed_sel:
  "has_too_many_errors (actions (closed w a wk) a) =
     has_too_many_errors ((actions w a)\<lparr>worker := Some wk\<rparr>)"
  "has_timed_out (actions (closed w a wk) a) = did_timeout wk"
  "get_retry (actions (closed w a wk) a) = retry (actions w a)"
  "delay (actions (closed w a wk) a) = delay (actions w a)"
  "status (actions (closed w a wk) a) = status (actions w a)"
  "calls (closed w a wk) = calls w @ [Remove_task a]"
  by (simp_all add: closed_def Let_def has_too_many_errors_def has_timed_out_def get_retry_def)

text \<open>
  Claim C2, amended. The attempt is classified once the worker is stored. When it has
  too many errors or has timed out and \<open>retry\<close> is positive, then on an action whose
  delay is positive \<^verbatim>\<open>ev_close\<close> returns with \<open>retry\<close> decreased by one, the status as
  it was, and the calls of a delayed schedule; on an action whose delay is not positive
  the assignment of \<open>retry\<close> fails its assertion: \<open>retry\<close> and the status stay as they
  were and nothing is scheduled. When \<open>retry\<close> is not positive, the status becomes
  \<open>TOO_MANY_ERRORS\<close> if the attempt has too many errors, and \<open>TIMED_OUT\<close> if it has not
  and has timed out. With neither, the status becomes \<open>DONE\<close>.
\<close>

theorem ev_close_cases:
  "((has_too_many_errors ((actions w a)\<lparr>worker := Some wk\<rparr>) \<or> did_timeout wk)
      \<and> 0 < retry (actions w a) \<and> 0 < delay (actions w a) \<longrightarrow>
      (\<exists>w'. ev_close d w a wk = Return w'
         \<and> retry (actions w' a) = retry (actions w a) - 1
         \<and> status (actions w' a) = status (actions w a)
         \<and> calls w' = calls w @
              [Remove_task a, Notify_action a EV_DELAYED, Perform_delayed_action a]))
   \<and> ((has_too_many_errors ((actions w a)\<lparr>worker := Some wk\<rparr>) \<or> did_timeout wk)
        \<and> 0 < retry (actions w a) \<and> \<not> 0 < delay (actions w a) \<longrightarrow>
        (\<exists>msg. raised (ev_close d w a wk) = Some (AssertionError msg))
        \<and> retry (actions (final (ev_close d w a wk)) a) = retry (actions w a)
        \<and> status (actions (final (ev_close d w a wk)) a) = status (actions w a)
        \<and> calls (final (ev_close d w a wk)) = calls w @ [Remove_task a])
   \<and> (has_too_many_errors ((actions w a)\<lparr>worker := Some wk\<rparr>) \<and> \<not> 0 < retry (actions w a) \<longrightarrow>
        status (actions (final (ev_close (Suc d) w a wk)) a) = TOO_MANY_ERRORS)
   \<and> (\<not> has_too_many_errors ((actions w a)\<lparr>worker := Some wk\<rparr>) \<and> did_timeout wk
        \<and> \<not> 0 < retry (actions w a) \<longrightarrow>
        status (actions (final (ev_close (Suc d) w a wk)) a) = TIMED_OUT)
   \<and> (\<not> has_too_many_errors ((actions w a)\<lparr>worker := Some wk\<rparr>) \<and> \<not> did_timeout wk \<longrightarrow>
        status (actions (final (ev_close (Suc d) w a wk)) a) = DONE)"
proof (intro conjI impI)
  assume h: "(has_too_many_errors ((actions w a)\<lparr>worker := Some wk\<rparr>) \<or> did_timeout wk)
      \<and> 0 < retry (actions w a) \<and> 0 < delay (actions w a)"
  define a1 where "a1 = (actions (closed w a wk) a)\<lparr>retry := retry (actions w a) - 1,
      retry_backup := (if retry_backup (actions (closed w a wk) a) = - 1
                       then retry (actions w a) - 1
                       else retry_backup (actions (closed w a wk) a))\<rparr>"
  have sr: "set_retry (actions (closed w a wk) a) (retry (actions w a) - 1) = Return a1"
    using h by (simp add: set_retry_def closed_sel a1_def Let_def)
  have e: "ev_close d w a wk = Return (schedule (put a a1 (closed w a wk)) a True)"
    using h sr by (simp add: ev_close_eq closed_sel Let_def del: update_status.simps)
  have d1: "delay a1 = delay (actions w a)" by (simp add: a1_def closed_sel)
  have 1: "retry (actions (schedule (put a a1 (closed w a wk)) a True) a) = retry (actions w a) - 1"
    by (simp add: schedule_def Let_def a1_def)
  have 2: "status (actions (schedule (put a a1 (closed w a wk)) a True) a) = status (actions w a)"
    by (simp add: schedule_def Let_def a1_def closed_sel)
  have 3: "calls (schedule (put a a1 (closed w a wk)) a True) =
      calls w @ [Remove_task a, Notify_action a EV_DELAYED, Perform_delayed_action a]"
    using h d1 by (simp add: schedule_def Let_def closed_sel)
  show "\<exists>w'. ev_close d w a wk = Return w'
         \<and> retry (actions w' a) = retry (actions w a) - 1
         \<and> status (actions w' a) = status (actions w a)
         \<and> calls w' = calls w @
              [Remove_task a, Notify_action a EV_DELAYED, Perform_delayed_action a]"
    using e 1 2 3 by blast
next
  assume h: "(has_too_many_errors ((actions w a)\<lparr>worker := Some wk\<rparr>) \<or> did_timeout wk)
        \<and> 0 < retry (actions w a) \<and> \<not> 0 < delay (actions w a)"
  have sr: "set_retry (actions (closed w a wk) a) (retry (actions w a) - 1) =
      Raise (AssertionError ''No way to specify retry without a delay'') (actions (closed w a wk) a)"
    using h by (simp add: set_retry_def closed_sel)
  have e: "ev_close d w a wk =
      Raise (AssertionError ''No way to specify retry without a delay'') (closed w a wk)"
    using h sr by (simp add: ev_close_eq closed_sel Let_def del: update_status.simps)
  show "\<exists>msg. raised (ev_close d w a wk) = Some (AssertionError msg)" using e by simp
  show "retry (actions (final (ev_close d w a wk)) a) = retry (actions w a)"
    using e closed_sel(3) [of w a wk] by (simp add: get_retry_def)
  show "status (actions (final (ev_close d w a wk)) a) = status (actions w a)"
    using e by (simp add: closed_sel)
  show "calls (final (ev_close d w a wk)) = calls w @ [Remove_task a]"
    using e by (simp add: closed_sel)
next
  assume h: "has_too_many_errors ((actions w a)\<lparr>worker := Some wk\<rparr>) \<and> \<not> 0 < retry (actions w a)"
  then have "ev_close (Suc d) w a wk = update_status (Suc d) (closed w a wk) a TOO_MANY_ERRORS"
    by (simp add: ev_close_eq closed_sel Let_def del: update_status.simps)
  then show "status (actions (final (ev_close (Suc d) w a wk)) a) = TOO_MANY_ERRORS"
    by (simp add: update_status_final_status del: update_status.simps)
next
  assume h: "\<not> has_too_many_errors ((actions w a)\<lparr>worker := Some wk\<rparr>) \<and> did_timeout wk
        \<and> \<not> 0 < retry (actions w a)"
  then have "ev_close (Suc d) w a wk = update_status (Suc d) (closed w a wk) a TIMED_OUT"
    by (simp add: ev_close_eq closed_sel Let_def del: update_status.simps)
  then show "status (actions (final (ev_close (Suc d) w a wk)) a) = TIMED_OUT"
    by (simp add: update_status_final_status del: update_status.simps)
next
  assume h: "\<not> has_too_many_errors ((actions w a)\<lparr>worker := Some wk\<rparr>) \<and> \<not> did_timeout wk"
  then have "ev_close (Suc d) w a wk = update_status (Suc d) (closed w a wk) a DONE"
    by (simp add: ev_close_eq closed_sel Let_def del: update_status.simps)
  then show "status (actions (final (ev_close (Suc d) w a wk)) a) = DONE"
    by (simp add: update_status_final_status del: update_status.simps)
qed

text \<open>
  A failed attempt with retries left, one with none, a timeout and a success.
\<close>

theorem ev_close_cases_witness:
  "retry (actions (final (ev_close (Suc 0) (world_retry 2) 1 wk1)) 1) = 1
   \<and> raised (ev_close (Suc 0) (world_retry 2) 1 wk1) = None
   \<and> calls (final (ev_close (Suc 0) (world_retry 2) 1 wk1)) =
       [Remove_task 1, Notify_action 1 EV_DELAYED, Perform_delayed_action 1]
   \<and> status (actions (final (ev_close (Suc 0) (world_retry 2) 1 wk1)) 1) = WAITING_STATUS
   \<and> status (actions (final (ev_close (Suc 0) (world_retry 0) 1 wk1)) 1) = TOO_MANY_ERRORS
   \<and> status (actions (final (ev_close (Suc 0) (world_retry 0) 1 wk_timeout)) 1) = TIMED_OUT
   \<and> status (actions (final (ev_close (Suc 0) (world_retry 2) 1 wk_ok)) 1) = DONE"
proof -
  have sel: "retry (actions (world_retry r) 1) = r" "delay (actions (world_retry r) 1) = 5"
    "status (actions (world_retry r) 1) = WAITING_STATUS" "calls (world_retry r) = []" for r
    by (simp_all add: world_retry_def Action_init_sel)
  have e1: "has_too_many_errors ((actions (world_retry r) 1)\<lparr>worker := Some wk1\<rparr>)" for r
    by (simp add: world_retry_def wk1_def has_too_many_errors_def Action_init_sel base0_def)
  have e2: "\<not> has_too_many_errors ((actions (world_retry r) 1)\<lparr>worker := Some wk_timeout\<rparr>)"
    "\<not> has_too_many_errors ((actions (world_retry r) 1)\<lparr>worker := Some wk_ok\<rparr>)" for r
    by (simp_all add: world_retry_def wk_timeout_def wk_ok_def has_too_many_errors_def
        Action_init_sel base0_def)
  have t: "did_timeout wk_timeout" "\<not> did_timeout wk_ok"
    by (simp_all add: wk_timeout_def wk_ok_def)
  from ev_close_cases [where w = "world_retry 2" and a = 1 and wk = wk1 and d = "Suc 0"]
  obtain w' where w': "ev_close (Suc 0) (world_retry 2) 1 wk1 = Return w'"
    "retry (actions w' 1) = 1" "status (actions w' 1) = WAITING_STATUS"
    "calls w' = [Remove_task 1, Notify_action 1 EV_DELAYED, Perform_delayed_action 1]"
    using e1 [of 2] sel [of 2] by auto
  have a: "status (actions (final (ev_close (Suc 0) (world_retry 0) 1 wk1)) 1) = TOO_MANY_ERRORS"
    using ev_close_cases [where w = "world_retry 0" and a = 1 and wk = wk1 and d = 0]
      e1 [of 0] sel [of 0] by simp
  have b: "status (actions (final (ev_close (Suc 0) (world_retry 0) 1 wk_timeout)) 1) = TIMED_OUT"
    using ev_close_cases [where w = "world_retry 0" and a = 1 and wk = wk_timeout and d = 0]
      e2 [of 0] sel [of 0] t by simp
  have c: "status (actions (final (ev_close (Suc 0) (world_retry 2) 1 wk_ok)) 1) = DONE"
    using ev_close_cases [where w = "world_retry 2" and a = 1 and wk = wk_ok and d = 0]
      e2 [of 2] t by simp
  show ?thesis using w' a b c by simp
qed

text \<open>
  Claim C2 as stated fails on an action whose delay is 0: the attempt has too many
  errors and \<open>retry\<close> is 1, but the assignment of \<open>retry\<close> raises, \<open>retry\<close> stays 1 and
  the only call recorded is the removal from the running tasks.
\<close>

theorem ev_close_no_delay_counterexample:
  "has_too_many_errors ((actions world_nodelay 1)\<lparr>worker := Some wk1\<rparr>)
   \<and> retry (actions world_nodelay 1) = 1
   \<and> raised (ev_close (Suc 0) world_nodelay 1 wk1) =
       Some (AssertionError ''No way to specify retry without a delay'')
   \<and> retry (actions (final (ev_close (Suc 0) world_nodelay 1 wk1)) 1) = 1
   \<and> calls (final (ev_close (Suc 0) world_nodelay 1 wk1)) = [Remove_task 1]"
proof -
  have h: "has_too_many_errors ((actions world_nodelay 1)\<lparr>worker := Some wk1\<rparr>)"
    by (simp add: world_nodelay_def wk1_def has_too_many_errors_def Action_init_sel base0_def)
  have sel: "retry (actions world_nodelay 1) = 1" "delay (actions world_nodelay 1) = 0"
    "calls world_nodelay = []"
    by (simp_all add: world_nodelay_def Action_init_sel)
  have sr: "set_retry (actions (closed world_nodelay 1 wk1) 1) (retry (actions world_nodelay 1) - 1) =
      Raise (AssertionError ''No way to specify retry without a delay'')
        (actions (closed world_nodelay 1 wk1) 1)"
    using sel by (simp add: set_retry_def closed_sel)
  have e: "ev_close (Suc 0) world_nodelay 1 wk1 =
      Raise (AssertionError ''No way to specify retry without a delay'') (closed world_nodelay 1 wk1)"
    using h sel sr by (simp add: ev_close_eq closed_sel Let_def del: update_status.simps)
  have r: "retry (actions (closed world_nodelay 1 wk1) 1) = 1"
    using closed_sel(3) [of world_nodelay 1 wk1] sel by (simp add: get_retry_def)
  show ?thesis using h sel e r by (simp add: closed_sel)
qed

section \<open>The command resolver\<close>

subsection \<open>The order of resolution\<close>



lemma word_char_not_dollar: "word_char c \<Longrightarrow> c \<noteq> CHR ''$''"
  by (auto simp add: word_char_def)

lemma findall_shape:
  "t \<in> set (findall s) \<Longrightarrow> \<exists>n. t = CHR ''$'' # n \<and> n \<noteq> [] \<and> (\<forall>c \<in> set n. word_char c)"
proof (induction s rule: findall.induct)
  case 1
  then show ?case by simp
next
  case (2 c cs)
  show ?case
  proof (cases "c = CHR ''$'' \<and> takeWhile word_char cs \<noteq> []")
    case True
    then have "t = c # takeWhile word_char cs \<or> t \<in> set (findall (dropWhile word_char cs))"
      using 2(3) by simp
    then show ?thesis
    proof
      assume "t = c # takeWhile word_char cs"
      then show ?thesis using True by (auto dest: set_takeWhileD)
    next
      assume "t \<in> set (findall (dropWhile word_char cs))"
      then show ?thesis using 2(1) True by blast
    qed
  next
    case False
    then have "t \<in> set (findall cs)" using 2(3) by auto
    then show ?thesis using 2(2) False by blast
  qed
qed

lemma lstrip_dollar_token:
  "\<forall>c \<in> set n. word_char c \<Longrightarrow> lstrip_dollar (CHR ''$'' # n) = n"
  by (cases n) (auto simp add: lstrip_dollar_def dest: word_char_not_dollar)

lemma spec_lookup_eq:
  "spec_lookup self sv mg n =
     (case attrs self (lower n) of Some v \<Rightarrow> Some v | None \<Rightarrow>
      (case variables self n of Some v \<Rightarrow> Some v | None \<Rightarrow>
       (case Option.bind sv (\<lambda>s. attrs s (lower n)) of Some v \<Rightarrow> Some v | None \<Rightarrow>
        (case Option.bind sv (\<lambda>s. variables s n) of Some v \<Rightarrow> Some v | None \<Rightarrow>
         (case attrs mg (lower n) of Some v \<Rightarrow> Some v | None \<Rightarrow> variables mg n)))))"
  by (simp add: spec_lookup_def split: option.splits)

lemma resolve_symbol_lookup:
  assumes w: "\<forall>c \<in> set n. word_char c"
  shows "resolve_symbol tmpl self sv mg cmd (CHR ''$'' # n) final_cmd =
     (case spec_lookup self sv mg n of
        None \<Rightarrow> Inl (UndefinedVariableError (undefined_msg n cmd))
      | Some v \<Rightarrow> re_sub tmpl (CHR ''$'' # n) v final_cmd)"
  unfolding resolve_symbol_def lstrip_dollar_token [OF w] spec_lookup_eq Let_def
  by (cases sv) (auto simp add: hasattr_def getattr_def getitem_def dom_def split: option.splits)

lemma resolves_lookup:
  "resolves self sv mg n \<Longrightarrow>
   spec_lookup self sv mg n = Some (Str (value_of self sv mg n))
   \<and> CHR 0x5C \<notin> set (value_of self sv mg n)"
  by (auto simp add: resolves_def value_of_def split: option.splits pyval.splits)

lemma resolve_symbol_resolves:
  assumes t: "t \<in> set (findall cmd')" and r: "resolves self sv mg (tl t)"
  shows "resolve_symbol tmpl self sv mg cmd t final_cmd =
           Inr (replace_all t (value_of self sv mg (tl t)) final_cmd)"
proof -
  from findall_shape [OF t] obtain n where n: "t = CHR ''$'' # n" "\<forall>c \<in> set n. word_char c"
    by blast
  show ?thesis
    using resolves_lookup [OF r] unfolding n(1) list.sel resolve_symbol_lookup [OF n(2)]
    by (simp add: re_sub_def)
qed

lemma resolve_loop_fold:
  assumes "\<forall>t \<in> set ts. t \<in> set (findall cmd') \<and> resolves self sv mg (tl t)"
  shows "resolve_loop tmpl self sv mg cmd (ts @ rest) final_cmd =
           resolve_loop tmpl self sv mg cmd rest
             (fold (\<lambda>t s. replace_all t (value_of self sv mg (tl t)) s) ts final_cmd)"
  using assms
proof (induction ts arbitrary: final_cmd)
  case Nil
  show ?case by simp
next
  case (Cons t ts)
  have "resolve_symbol tmpl self sv mg cmd t final_cmd =
      Inr (replace_all t (value_of self sv mg (tl t)) final_cmd)"
    using Cons.prems by (intro resolve_symbol_resolves [of t cmd']) simp_all
  then show ?case using Cons by simp
qed







subsection \<open>What the substitutions build\<close>

lemma pexpand_empty: "pexpand {} val s = s"
  by (induction s rule: findall.induct) simp_all

lemma pexpand_all:
  "\<forall>t \<in> set (findall s). tl t \<in> D \<Longrightarrow> pexpand D val s = expand_tokens val s"
proof (induction s rule: findall.induct)
  case 1
  show ?case by simp
next
  case (2 c cs)
  show ?case
  proof (cases "c = CHR ''$'' \<and> takeWhile word_char cs \<noteq> []")
    case True
    then have "takeWhile word_char cs \<in> D"
      and "\<forall>t \<in> set (findall (dropWhile word_char cs)). tl t \<in> D"
      using 2(3) by simp_all
    then show ?thesis using True 2(1) by simp
  next
    case False
    then have "\<forall>t \<in> set (findall cs). tl t \<in> D" using 2(3) by auto
    then show ?thesis using False 2(2) by auto
  qed
qed

lemma replace_all_pass:
  "CHR ''$'' \<notin> set v \<Longrightarrow>
   replace_all (CHR ''$'' # n) rep (v @ x) = v @ replace_all (CHR ''$'' # n) rep x"
  by (induction v) auto

lemma replace_all_hit:
  "replace_all (CHR ''$'' # n) rep ((CHR ''$'' # n) @ x) = rep @ replace_all (CHR ''$'' # n) rep x"
  by simp

lemma replace_all_miss:
  "\<not> prefix n y \<Longrightarrow>
   replace_all (CHR ''$'' # n) rep (CHR ''$'' # y) = CHR ''$'' # replace_all (CHR ''$'' # n) rep y"
  by simp

lemma double_dollar_Cons: "double_dollar cs \<Longrightarrow> double_dollar (c # cs)"
  by (cases cs) simp_all

lemma double_dollar_append: "double_dollar ys \<Longrightarrow> double_dollar (xs @ ys)"
  by (induction xs) (simp_all add: double_dollar_Cons)

lemma double_dollar_dropWhile: "double_dollar (dropWhile P cs) \<Longrightarrow> double_dollar cs"
  using double_dollar_append [of "dropWhile P cs" "takeWhile P cs"] by simp

lemma word_chars_no_dollar: "\<forall>c \<in> set n. word_char c \<Longrightarrow> CHR ''$'' \<notin> set n"
  using word_char_not_dollar by blast

lemma replace_all_pexpand:
  assumes n: "n \<noteq> []" "\<forall>c \<in> set n. word_char c"
    and T: "\<forall>t \<in> set (findall s).
              (tl t \<in> D \<longrightarrow> CHR ''$'' \<notin> set (val (tl t)))
              \<and> \<not> strict_prefix n (tl t) \<and> \<not> strict_prefix (tl t) n"
    and dd: "\<not> double_dollar s"
  shows "replace_all (CHR ''$'' # n) (val n) (pexpand D val s) = pexpand (insert n D) val s"
  using T dd
proof (induction s rule: findall.induct)
  case 1
  show ?case by simp
next
  case (2 c cs)
  let ?m = "takeWhile word_char cs" and ?r = "dropWhile word_char cs"
  let ?pat = "CHR ''$'' # n"
  show ?case
  proof (cases "c = CHR ''$'' \<and> ?m \<noteq> []")
    case True
    have Tm: "(?m \<in> D \<longrightarrow> CHR ''$'' \<notin> set (val ?m))"
      "\<not> strict_prefix n ?m" "\<not> strict_prefix ?m n"
      using 2(3) True by simp_all
    have Tr: "\<forall>t \<in> set (findall ?r).
              (tl t \<in> D \<longrightarrow> CHR ''$'' \<notin> set (val (tl t)))
              \<and> \<not> strict_prefix n (tl t) \<and> \<not> strict_prefix (tl t) n"
      using 2(3) True by simp
    have ddr: "\<not> double_dollar ?r"
      using 2(4) double_dollar_dropWhile [of word_char cs] double_dollar_Cons [of cs c] by blast
    have IH: "replace_all ?pat (val n) (pexpand D val ?r) = pexpand (insert n D) val ?r"
      using 2(1) True Tr ddr by blast
    have mw: "CHR ''$'' \<notin> set ?m"
      using word_char_not_dollar by (auto dest: set_takeWhileD)
    show ?thesis
    proof (cases "?m \<in> D")
      case inD: True
      have "replace_all ?pat (val n) (val ?m @ pexpand D val ?r)
          = val ?m @ replace_all ?pat (val n) (pexpand D val ?r)"
        using Tm(1) inD by (intro replace_all_pass) simp
      then show ?thesis using True inD IH by simp
    next
      case notD: False
      show ?thesis
      proof (cases "?m = n")
        case eq: True
        have "replace_all ?pat (val n) ((CHR ''$'' # n) @ pexpand D val ?r)
            = val n @ replace_all ?pat (val n) (pexpand D val ?r)"
          by (rule replace_all_hit)
        then show ?thesis using True notD eq IH by simp
      next
        case ne: False
        have np: "\<not> prefix n (?m @ pexpand D val ?r)"
        proof
          assume "prefix n (?m @ pexpand D val ?r)"
          then have "prefix n ?m \<or> (\<exists>us. n = ?m @ us \<and> prefix us (pexpand D val ?r))"
            by (simp add: prefix_append)
          then show False
          proof
            assume "prefix n ?m"
            then show False using Tm(2) ne by (simp add: strict_prefix_def)
          next
            assume "\<exists>us. n = ?m @ us \<and> prefix us (pexpand D val ?r)"
            then have "prefix ?m n" by auto
            then show False using Tm(3) ne by (simp add: strict_prefix_def)
          qed
        qed
        have "replace_all ?pat (val n) (CHR ''$'' # (?m @ pexpand D val ?r))
            = CHR ''$'' # replace_all ?pat (val n) (?m @ pexpand D val ?r)"
          using np by (rule replace_all_miss)
        also have "\<dots> = CHR ''$'' # (?m @ replace_all ?pat (val n) (pexpand D val ?r))"
          using replace_all_pass [OF mw, of n "val n" "pexpand D val ?r"] by simp
        finally show ?thesis using True notD ne IH by simp
      qed
    qed
  next
    case False
    have Tr: "\<forall>t \<in> set (findall cs).
              (tl t \<in> D \<longrightarrow> CHR ''$'' \<notin> set (val (tl t)))
              \<and> \<not> strict_prefix n (tl t) \<and> \<not> strict_prefix (tl t) n"
      using 2(3) False by auto
    have ddr: "\<not> double_dollar cs" using 2(4) double_dollar_Cons [of cs c] by blast
    have IH: "replace_all ?pat (val n) (pexpand D val cs) = pexpand (insert n D) val cs"
      using 2(2) False Tr ddr by blast
    have pe: "pexpand D val (c # cs) = c # pexpand D val cs"
      "pexpand (insert n D) val (c # cs) = c # pexpand (insert n D) val cs"
      using False by auto
    show ?thesis
    proof (cases "c = CHR ''$''")
      case nd: False
      then show ?thesis using pe IH by simp
    next
      case d: True
      then have tw: "?m = []" using False by simp
      have np: "\<not> prefix n (pexpand D val cs)"
      proof (cases cs)
        case Nil
        then show ?thesis using n(1) by simp
      next
        case (Cons e es)
        have e1: "\<not> word_char e" using tw Cons by (auto split: if_splits)
        have e2: "e \<noteq> CHR ''$''" using 2(4) d Cons by simp
        then have "pexpand D val cs = e # pexpand D val es" using Cons by simp
        moreover obtain n0 ns where "n = n0 # ns" using n(1) by (cases n) auto
        moreover have "word_char (hd n)" using n by (cases n) auto
        ultimately show ?thesis using e1 by auto
      qed
      have "replace_all ?pat (val n) (CHR ''$'' # pexpand D val cs)
            = CHR ''$'' # replace_all ?pat (val n) (pexpand D val cs)"
        using np by (rule replace_all_miss)
      then show ?thesis using pe IH d by simp
    qed
  qed
qed

lemma fold_pexpand:
  assumes G1: "\<forall>t \<in> set (findall s). CHR ''$'' \<notin> set (val (tl t))"
    and G2: "\<forall>t \<in> set (findall s). \<forall>u \<in> set (findall s). \<not> strict_prefix t u"
    and dd: "\<not> double_dollar s"
    and sub: "set ts \<subseteq> set (findall s)"
  shows "fold (\<lambda>t x. replace_all t (val (tl t)) x) ts (pexpand D val s) =
           pexpand (D \<union> tl ` set ts) val s"
  using sub
proof (induction ts arbitrary: D)
  case Nil
  show ?case by simp
next
  case (Cons t ts)
  have t: "t \<in> set (findall s)" using Cons.prems by simp
  from findall_shape [OF t] obtain n where
    n: "t = CHR ''$'' # n" "n \<noteq> []" "\<forall>c \<in> set n. word_char c" by blast
  have T: "\<forall>u \<in> set (findall s).
              (tl u \<in> D \<longrightarrow> CHR ''$'' \<notin> set (val (tl u)))
              \<and> \<not> strict_prefix n (tl u) \<and> \<not> strict_prefix (tl u) n"
  proof
    fix u
    assume u: "u \<in> set (findall s)"
    from findall_shape [OF u] obtain m where m: "u = CHR ''$'' # m" by blast
    have "\<not> strict_prefix t u" "\<not> strict_prefix u t" using G2 t u by blast+
    then have "\<not> strict_prefix n m" "\<not> strict_prefix m n" using n(1) m by simp_all
    moreover have "CHR ''$'' \<notin> set (val (tl u))" using G1 u by blast
    ultimately show "(tl u \<in> D \<longrightarrow> CHR ''$'' \<notin> set (val (tl u)))
              \<and> \<not> strict_prefix n (tl u) \<and> \<not> strict_prefix (tl u) n"
      using m by simp
  qed
  have step: "replace_all t (val (tl t)) (pexpand D val s) = pexpand (insert n D) val s"
    using replace_all_pexpand [OF n(2) n(3) T dd] n(1) by simp
  have "fold (\<lambda>t x. replace_all t (val (tl t)) x) ts (pexpand (insert n D) val s) =
           pexpand (insert n D \<union> tl ` set ts) val s"
    using Cons.IH [of "insert n D"] Cons.prems by simp
  moreover have "insert n D \<union> tl ` set ts = D \<union> tl ` set (t # ts)" using n(1) by auto
  ultimately show ?case using step by simp
qed

lemma fold_replace_all_expand:
  assumes G1: "\<forall>t \<in> set (findall s). CHR ''$'' \<notin> set (val (tl t))"
    and G2: "\<forall>t \<in> set (findall s). \<forall>u \<in> set (findall s). \<not> strict_prefix t u"
    and dd: "\<not> double_dollar s"
  shows "fold (\<lambda>t x. replace_all t (val (tl t)) x) (findall s) s = expand_tokens val s"
proof -
  have "fold (\<lambda>t x. replace_all t (val (tl t)) x) (findall s) (pexpand {} val s) =
           pexpand ({} \<union> tl ` set (findall s)) val s"
    by (rule fold_pexpand [OF G1 G2 dd]) simp
  moreover have "pexpand ({} \<union> tl ` set (findall s)) val s = expand_tokens val s"
    by (rule pexpand_all) simp
  ultimately show ?thesis by (simp add: pexpand_empty)
qed

lemma resolved_command_fold:
  assumes c: "attrs self ''command'' = Some (Str cmd)"
    and r: "\<forall>t \<in> set (findall cmd). resolves self sv mg (tl t)"
  shows "resolved_command tmpl self sv mg =
           Inr (fold (\<lambda>t s. replace_all t (value_of self sv mg (tl t)) s) (findall cmd) cmd)"
proof -
  have "\<forall>t \<in> set (findall cmd). t \<in> set (findall cmd) \<and> resolves self sv mg (tl t)"
    using r by simp
  from resolve_loop_fold [OF this, where tmpl = tmpl and cmd = cmd and rest = "[]"
      and final_cmd = cmd] show ?thesis
    using c by (simp add: resolved_command_def)
qed

lemma replace_all_expand_token:
  assumes n: "n \<noteq> []" "\<forall>c \<in> set n. word_char c"
    and L: "\<forall>u \<in> set (findall s). \<not> strict_prefix n (tl u)"
  shows "replace_all (CHR ''$'' # n) v s = expand_token n v s"
  using L
proof (induction s rule: findall.induct)
  case 1
  show ?case by simp
next
  case (2 c cs)
  let ?m = "takeWhile word_char cs" and ?r = "dropWhile word_char cs"
  let ?pat = "CHR ''$'' # n"
  have nw: "word_char (hd n)" using n by (cases n) auto
  show ?case
  proof (cases "c = CHR ''$'' \<and> ?m \<noteq> []")
    case True
    have Lm: "\<not> strict_prefix n ?m" using 2(3) True by simp
    have Lr: "\<forall>u \<in> set (findall ?r). \<not> strict_prefix n (tl u)" using 2(3) True by simp
    have IH: "replace_all ?pat v ?r = expand_token n v ?r" using 2(1) True Lr by blast
    have s: "c # cs = CHR ''$'' # (?m @ ?r)" using True by simp
    have mw: "CHR ''$'' \<notin> set ?m"
      using word_char_not_dollar by (auto dest: set_takeWhileD)
    show ?thesis
    proof (cases "?m = n")
      case eq: True
      have cs_eq: "c # cs = (CHR ''$'' # n) @ ?r" using s eq by simp
      have "replace_all ?pat v (c # cs) = v @ replace_all ?pat v ?r"
        by (subst cs_eq) (rule replace_all_hit)
      moreover have "expand_token n v (c # cs) = v @ expand_token n v ?r"
        using True eq by simp
      ultimately show ?thesis using IH by (simp only:)
    next
      case ne: False
      have np: "\<not> prefix n (?m @ ?r)"
      proof
        assume "prefix n (?m @ ?r)"
        then have "prefix n ?m \<or> (\<exists>us. n = ?m @ us \<and> prefix us ?r)"
          using prefix_append [of n ?m ?r] by blast
        then show False
        proof
          assume "prefix n ?m"
          then show False using Lm ne by (simp add: strict_prefix_def)
        next
          assume "\<exists>us. n = ?m @ us \<and> prefix us ?r"
          then obtain us where us: "n = ?m @ us" "prefix us ?r" by blast
          have "us \<noteq> []" using us(1) ne by auto
          then obtain u0 us' where u0: "us = u0 # us'" by (cases us) auto
          have "word_char u0" using n(2) us(1) u0 by simp
          moreover obtain r' where "?r = u0 # r'" using us(2) u0 by (cases ?r) auto
          then have "\<not> word_char u0" using hd_dropWhile [of word_char cs] by auto
          ultimately show False by simp
        qed
      qed
      have "replace_all ?pat v (CHR ''$'' # (?m @ ?r)) = CHR ''$'' # replace_all ?pat v (?m @ ?r)"
        using np by (rule replace_all_miss)
      also have "\<dots> = CHR ''$'' # (?m @ replace_all ?pat v ?r)"
        using replace_all_pass [OF mw, of n v ?r] by simp
      finally have "replace_all ?pat v (CHR ''$'' # (?m @ ?r)) =
          CHR ''$'' # (?m @ replace_all ?pat v ?r)" .
      then have "replace_all ?pat v (c # cs) = CHR ''$'' # (?m @ replace_all ?pat v ?r)"
        by (subst s)
      moreover have "expand_token n v (c # cs) = CHR ''$'' # (?m @ expand_token n v ?r)"
        using True ne by simp
      ultimately show ?thesis using IH by (simp only:)
    qed
  next
    case False
    have Lr: "\<forall>u \<in> set (findall cs). \<not> strict_prefix n (tl u)" using 2(3) False by auto
    have IH: "replace_all ?pat v cs = expand_token n v cs" using 2(2) False Lr by blast
    have pe: "expand_token n v (c # cs) = c # expand_token n v cs" using False by auto
    show ?thesis
    proof (cases "c = CHR ''$''")
      case nd: False
      then show ?thesis using pe IH by simp
    next
      case d: True
      then have tw: "?m = []" using False by simp
      have np: "\<not> prefix n cs"
      proof (cases cs)
        case Nil
        then show ?thesis using n(1) by simp
      next
        case (Cons e es)
        have "\<not> word_char e" using tw Cons by (auto split: if_splits)
        then show ?thesis using nw Cons n(1) by (cases n) auto
      qed
      have "replace_all ?pat v (CHR ''$'' # cs) = CHR ''$'' # replace_all ?pat v cs"
        using np by (rule replace_all_miss)
      then show ?thesis using pe IH d by simp
    qed
  qed
qed

lemma fold_expand_token:
  assumes "set ts \<subseteq> set (findall cmd')" and "longer_token_free val ts s"
  shows "fold (\<lambda>t x. replace_all t (val (tl t)) x) ts s =
           fold (\<lambda>t x. expand_token (tl t) (val (tl t)) x) ts s"
  using assms
proof (induction ts arbitrary: s)
  case Nil
  show ?case by simp
next
  case (Cons t ts)
  have t: "t \<in> set (findall cmd')" using Cons.prems(1) by simp
  from findall_shape [OF t] obtain n where
    n: "t = CHR ''$'' # n" "n \<noteq> []" "\<forall>c \<in> set n. word_char c" by blast
  have L: "\<forall>u \<in> set (findall s). \<not> strict_prefix n (tl u)"
  proof
    fix u
    assume u: "u \<in> set (findall s)"
    from findall_shape [OF u] obtain m where m: "u = CHR ''$'' # m" by blast
    have "\<not> strict_prefix t u" using Cons.prems(2) u by (simp add: list_all_iff)
    then show "\<not> strict_prefix n (tl u)" using n(1) m by simp
  qed
  have step: "replace_all t (val (tl t)) s = expand_token (tl t) (val (tl t)) s"
    using replace_all_expand_token [OF n(2) n(3) L] n(1) by simp
  have "longer_token_free val ts (expand_token (tl t) (val (tl t)) s)"
    using Cons.prems(2) by simp
  then show ?case using Cons.IH Cons.prems(1) step by simp
qed

lemma resolve_loop_same_lookups:
  assumes "\<forall>t \<in> set ts. t \<in> set (findall cmd')
             \<and> spec_lookup self sv mg (tl t) = spec_lookup self' sv' mg' (tl t)"
  shows "resolve_loop tmpl self sv mg cmd ts final_cmd =
           resolve_loop tmpl self' sv' mg' cmd ts final_cmd"
  using assms
proof (induction ts arbitrary: final_cmd)
  case Nil
  show ?case by simp
next
  case (Cons t ts)
  have t: "t \<in> set (findall cmd')" using Cons.prems by simp
  from findall_shape [OF t] obtain n where
    n: "t = CHR ''$'' # n" "\<forall>c \<in> set n. word_char c" by blast
  have "spec_lookup self sv mg n = spec_lookup self' sv' mg' n" using Cons.prems n(1) by simp
  then have "resolve_symbol tmpl self sv mg cmd t final_cmd =
      resolve_symbol tmpl self' sv' mg' cmd t final_cmd"
    unfolding n(1) resolve_symbol_lookup [OF n(2)] by simp
  then show ?case using Cons by (simp split: sum.splits)
qed

text \<open>
  Claim C9, amended. \<^verbatim>\<open>resolved_command\<close> looks up the tokens of the command as first
  written and no other: two sets of places that give the same answers for these tokens
  give the same result. When every token is found as a string with no backslash and,
  at each step, the string built so far holds no longer token that begins with the
  token of the step, the result is the command in which, for each token of the command
  as first written, in order, every occurrence of that token in the string built so far
  has been replaced by its value. When every token is found as a string with no
  backslash and no dollar sign, no token is the beginning of a longer one and the
  command has no two dollar signs in a row, the result is the command with every
  occurrence of each token replaced by its value.
\<close>

theorem resolved_command_expansion:
  "attrs self ''command'' = Some (Str cmd) \<longrightarrow>
     (attrs self' ''command'' = Some (Str cmd)
        \<and> (\<forall>t \<in> set (findall cmd).
              spec_lookup self sv mg (tl t) = spec_lookup self' sv' mg' (tl t)) \<longrightarrow>
        resolved_command tmpl self sv mg = resolved_command tmpl self' sv' mg')
     \<and> ((\<forall>t \<in> set (findall cmd). resolves self sv mg (tl t))
          \<and> longer_token_free (value_of self sv mg) (findall cmd) cmd \<longrightarrow>
          resolved_command tmpl self sv mg =
            Inr (fold (\<lambda>t s. expand_token (tl t) (value_of self sv mg (tl t)) s)
                   (findall cmd) cmd))
     \<and> ((\<forall>t \<in> set (findall cmd). resolves self sv mg (tl t))
          \<and> (\<forall>t \<in> set (findall cmd). CHR ''$'' \<notin> set (value_of self sv mg (tl t)))
          \<and> (\<forall>t \<in> set (findall cmd). \<forall>u \<in> set (findall cmd). \<not> strict_prefix t u)
          \<and> \<not> double_dollar cmd \<longrightarrow>
          resolved_command tmpl self sv mg = Inr (expand_tokens (value_of self sv mg) cmd))"
proof (intro impI conjI)
  assume c: "attrs self ''command'' = Some (Str cmd)"
  assume h: "attrs self' ''command'' = Some (Str cmd)
        \<and> (\<forall>t \<in> set (findall cmd).
              spec_lookup self sv mg (tl t) = spec_lookup self' sv' mg' (tl t))"
  then have "\<forall>t \<in> set (findall cmd). t \<in> set (findall cmd)
             \<and> spec_lookup self sv mg (tl t) = spec_lookup self' sv' mg' (tl t)" by simp
  from resolve_loop_same_lookups [OF this, of tmpl cmd cmd]
  show "resolved_command tmpl self sv mg = resolved_command tmpl self' sv' mg'"
    using c h by (simp add: resolved_command_def)
next
  assume c: "attrs self ''command'' = Some (Str cmd)"
  assume h: "(\<forall>t \<in> set (findall cmd). resolves self sv mg (tl t))
          \<and> longer_token_free (value_of self sv mg) (findall cmd) cmd"
  have "fold (\<lambda>t x. replace_all t (value_of self sv mg (tl t)) x) (findall cmd) cmd =
        fold (\<lambda>t x. expand_token (tl t) (value_of self sv mg (tl t)) x) (findall cmd) cmd"
    using h by (intro fold_expand_token [of _ cmd]) simp_all
  then show "resolved_command tmpl self sv mg =
            Inr (fold (\<lambda>t s. expand_token (tl t) (value_of self sv mg (tl t)) s)
                   (findall cmd) cmd)"
    using resolved_command_fold [OF c, of sv mg tmpl] h by simp
next
  assume c: "attrs self ''command'' = Some (Str cmd)"
  assume h: "(\<forall>t \<in> set (findall cmd). resolves self sv mg (tl t))
          \<and> (\<forall>t \<in> set (findall cmd). CHR ''$'' \<notin> set (value_of self sv mg (tl t)))
          \<and> (\<forall>t \<in> set (findall cmd). \<forall>u \<in> set (findall cmd). \<not> strict_prefix t u)
          \<and> \<not> double_dollar cmd"
  then show "resolved_command tmpl self sv mg = Inr (expand_tokens (value_of self sv mg) cmd)"
    using resolved_command_fold [OF c, of sv mg tmpl]
      fold_replace_all_expand [of cmd "value_of self sv mg"] by simp
qed

lemma findall_ex3: "findall ''cp $SRC $DST; ls $DST'' = [''$SRC'', ''$DST'', ''$DST'']"
  by (simp add: word_char_def)

lemma findall_ex4: "findall ''$A $B'' = [''$A'', ''$B'']"
  by (simp add: word_char_def)

lemma lower_ex2:
  "lower ''SRC'' = ''src''" "lower ''DST'' = ''dst''" "lower ''A'' = ''a''" "lower ''B'' = ''b''"
  by code_simp+

lemma ex_lookups2:
  "spec_lookup ex_plain None ex_manager ''SRC'' = Some (Str ''/a'')"
  "spec_lookup ex_plain None ex_manager ''DST'' = Some (Str ''/b'')"
  "spec_lookup ex_rec None ex_manager ''A'' = Some (Str ''$B'')"
  "spec_lookup ex_rec None ex_manager ''B'' = Some (Str ''x'')"
  by (simp_all add: spec_lookup_eq lower_ex2 ex_plain_def ex_rec_def ex_manager_def)

lemma ex_lookups3:
  "spec_lookup ex_plain2 None ex_manager ''SRC'' = Some (Str ''/a'')"
  "spec_lookup ex_plain2 None ex_manager ''DST'' = Some (Str ''/b'')"
  by (simp_all add: spec_lookup_eq lower_ex2 ex_plain2_def ex_manager_def)

text \<open>
  A command in which a token occurs twice; the same command on an action with more
  attributes and variables; a value that holds a token of the command.
\<close>

theorem resolved_command_expansion_witness:
  "resolved_command literal_parser ex_plain None ex_manager = Inr ''cp /a /b; ls /b''
   \<and> expand_tokens (value_of ex_plain None ex_manager) ''cp $SRC $DST; ls $DST''
       = ''cp /a /b; ls /b''
   \<and> resolved_command literal_parser ex_plain2 None ex_manager = Inr ''cp /a /b; ls /b''
   \<and> longer_token_free (value_of ex_rec None ex_manager) (findall ''$A $B'') ''$A $B''
   \<and> fold (\<lambda>t s. expand_token (tl t) (value_of ex_rec None ex_manager (tl t)) s)
         (findall ''$A $B'') ''$A $B'' = ''x x''
   \<and> resolved_command literal_parser ex_rec None ex_manager =
       Inr (fold (\<lambda>t s. expand_token (tl t) (value_of ex_rec None ex_manager (tl t)) s)
              (findall ''$A $B'') ''$A $B'')"
proof -
  have c: "attrs ex_plain ''command'' = Some (Str ''cp $SRC $DST; ls $DST'')"
    by (simp add: ex_plain_def)
  have c2: "attrs ex_plain2 ''command'' = Some (Str ''cp $SRC $DST; ls $DST'')"
    by (simp add: ex_plain2_def)
  have c3: "attrs ex_rec ''command'' = Some (Str ''$A $B'')" by (simp add: ex_rec_def)
  have v: "value_of ex_plain None ex_manager ''SRC'' = ''/a''"
    "value_of ex_plain None ex_manager ''DST'' = ''/b''"
    "value_of ex_rec None ex_manager ''A'' = ''$B''"
    "value_of ex_rec None ex_manager ''B'' = ''x''"
    by (simp_all add: value_of_def ex_lookups2)
  have r: "\<forall>t \<in> set (findall ''cp $SRC $DST; ls $DST''). resolves ex_plain None ex_manager (tl t)"
    by (simp add: findall_ex3 resolves_def ex_lookups2 del: findall.simps)
  have g1: "\<forall>t \<in> set (findall ''cp $SRC $DST; ls $DST'').
      CHR ''$'' \<notin> set (value_of ex_plain None ex_manager (tl t))"
    by (simp add: findall_ex3 v del: findall.simps)
  have g2: "\<forall>t \<in> set (findall ''cp $SRC $DST; ls $DST'').
      \<forall>u \<in> set (findall ''cp $SRC $DST; ls $DST''). \<not> strict_prefix t u"
    by (simp add: findall_ex3 del: findall.simps)
  have dd: "\<not> double_dollar ''cp $SRC $DST; ls $DST''" by simp
  have e: "expand_tokens (value_of ex_plain None ex_manager) ''cp $SRC $DST; ls $DST''
       = ''cp /a /b; ls /b''"
    by (simp add: word_char_def v)
  have same: "\<forall>t \<in> set (findall ''cp $SRC $DST; ls $DST'').
      spec_lookup ex_plain None ex_manager (tl t) = spec_lookup ex_plain2 None ex_manager (tl t)"
    by (simp add: findall_ex3 ex_lookups2 ex_lookups3 del: findall.simps)
  have r3: "\<forall>t \<in> set (findall ''$A $B''). resolves ex_rec None ex_manager (tl t)"
    by (simp add: findall_ex4 resolves_def ex_lookups2 del: findall.simps)
  have f1: "findall ''$B $B'' = [''$B'', ''$B'']" by (simp add: word_char_def)
  have x1: "expand_token ''A'' ''$B'' ''$A $B'' = ''$B $B''" by (simp add: word_char_def)
  have x2: "expand_token ''B'' ''x'' ''$B $B'' = ''x x''" by (simp add: word_char_def)
  have l: "longer_token_free (value_of ex_rec None ex_manager) (findall ''$A $B'') ''$A $B''"
    by (simp add: findall_ex4 f1 v x1 x2 del: findall.simps expand_token.simps)
  have f: "fold (\<lambda>t s. expand_token (tl t) (value_of ex_rec None ex_manager (tl t)) s)
         (findall ''$A $B'') ''$A $B'' = ''x x''"
    by (simp add: findall_ex4 v x1 x2 del: findall.simps expand_token.simps)
  note th = resolved_command_expansion [where tmpl = literal_parser and self = ex_plain
      and cmd = "''cp $SRC $DST; ls $DST''" and sv = None and mg = ex_manager
      and self' = ex_plain2 and sv' = None and mg' = ex_manager]
  have 1: "resolved_command literal_parser ex_plain None ex_manager =
      Inr (expand_tokens (value_of ex_plain None ex_manager) ''cp $SRC $DST; ls $DST'')"
    using th c r g1 g2 dd by blast
  have 2: "resolved_command literal_parser ex_plain None ex_manager =
      resolved_command literal_parser ex_plain2 None ex_manager"
    using th c c2 same by blast
  have 3: "resolved_command literal_parser ex_rec None ex_manager =
       Inr (fold (\<lambda>t s. expand_token (tl t) (value_of ex_rec None ex_manager (tl t)) s)
              (findall ''$A $B'') ''$A $B'')"
    using resolved_command_expansion [where tmpl = literal_parser and self = ex_rec
      and cmd = "''$A $B''" and sv = None and mg = ex_manager
      and self' = ex_rec and sv' = None and mg' = ex_manager] c3 r3 l by blast
  show ?thesis using 1 2 3 e l f by simp
qed

text \<open>
  Claim C9 as stated fails: the value of \<open>$A\<close> holds the token \<open>$B\<close>, which stands
  later in the command, and the replacement of \<open>$B\<close> expands it inside that value too.
\<close>

theorem resolved_command_recursive_counterexample:
  "resolved_command literal_parser ex_rec None ex_manager = Inr ''x x''
   \<and> spec_lookup ex_rec None ex_manager ''A'' = Some (Str ''$B'')
   \<and> resolved_command literal_parser ex_rec None ex_manager \<noteq> Inr ''$B x''"
proof -
  have c: "attrs ex_rec ''command'' = Some (Str ''$A $B'')" by (simp add: ex_rec_def)
  have v: "value_of ex_rec None ex_manager ''A'' = ''$B''"
    "value_of ex_rec None ex_manager ''B'' = ''x''"
    by (simp_all add: value_of_def ex_lookups2)
  have r: "\<forall>t \<in> set (findall ''$A $B''). resolves ex_rec None ex_manager (tl t)"
    by (simp add: findall_ex4 resolves_def ex_lookups2 del: findall.simps)
  have "resolved_command literal_parser ex_rec None ex_manager =
      Inr (fold (\<lambda>t s. replace_all t (value_of ex_rec None ex_manager (tl t)) s)
             (findall ''$A $B'') ''$A $B'')"
    by (rule resolved_command_fold [OF c r])
  then have "resolved_command literal_parser ex_rec None ex_manager = Inr ''x x''"
    by (simp add: findall_ex4 v del: findall.simps)
  then show ?thesis by (simp add: ex_lookups2)
qed


end
